theory Spec2Isabelle
  imports Complex_Main "HOL-Library.Sublist" "HOL-Library.AList"
begin

section \<open>The event queue (queue.ts)\<close>

text \<open>
  \<^verbatim>\<open>class LogQueue\<close> holds a private array \<^verbatim>\<open>queue\<close> and the number \<^verbatim>\<open>maxSize\<close>.
  The queue never inspects its elements, so the element type is a parameter.
  \<^verbatim>\<open>maxSize\<close> is a JavaScript number that the configuration loader obtains with
  \<^verbatim>\<open>parseInt\<close>; it is an integer here, of either sign.
\<close>

record 'a LogQueue =
  queue :: "'a list"
  maxSize :: int

text \<open>\<^verbatim>\<open>constructor(maxSize: number = 1000)\<close>: an absent argument takes the default.\<close>

definition new_LogQueue :: "int option \<Rightarrow> 'a LogQueue" where
  "new_LogQueue m = \<lparr>queue = [], maxSize = (case m of None \<Rightarrow> 1000 | Some n \<Rightarrow> n)\<rparr>"

text \<open>
  \<^verbatim>\<open>enqueue\<close>: when \<^verbatim>\<open>queue.length >= maxSize\<close> the array is shifted (\<^verbatim>\<open>shift\<close> removes the
  first element and does nothing on an empty array, which is what \<^const>\<open>tl\<close> does), then the
  entry is pushed at the end.
\<close>

definition enqueue :: "'a LogQueue \<Rightarrow> 'a \<Rightarrow> 'a LogQueue" where
  "enqueue q entry =
     (let q1 = (if int (length (queue q)) \<ge> maxSize q then q\<lparr>queue := tl (queue q)\<rparr> else q)
      in q1\<lparr>queue := queue q1 @ [entry]\<rparr>)"

text \<open>
  \<^verbatim>\<open>dequeue(batchSize)\<close> is \<^verbatim>\<open>this.queue.splice(0, batchSize)\<close>: the delete count is clamped
  between 0 and the length, the removed prefix is returned and the array keeps the rest.
\<close>

definition dequeue :: "'a LogQueue \<Rightarrow> int \<Rightarrow> 'a list \<times> 'a LogQueue" where
  "dequeue q batchSize =
     (take (nat batchSize) (queue q), q\<lparr>queue := drop (nat batchSize) (queue q)\<rparr>)"

definition size_q :: "'a LogQueue \<Rightarrow> nat" where
  "size_q q = length (queue q)"

definition clear :: "'a LogQueue \<Rightarrow> 'a LogQueue" where
  "clear q = q\<lparr>queue := []\<rparr>"

definition isEmpty :: "'a LogQueue \<Rightarrow> bool" where
  "isEmpty q = (length (queue q) = 0)"

text \<open>A sequence of enqueue calls, oldest call first.\<close>

definition enqueue_all :: "'a LogQueue \<Rightarrow> 'a list \<Rightarrow> 'a LogQueue" where
  "enqueue_all q logs = foldl enqueue q logs"

section \<open>The client: batching and delivery (types.ts, client.ts)\<close>

text \<open>
  \<^verbatim>\<open>interface LogSentinelConfig\<close>: two required strings and seven optional fields; an absent
  optional field is \<^const>\<open>None\<close>.
\<close>

record LogSentinelConfig =
  apiKey :: string
  baseUrl :: string
  enabled :: "bool option"
  sampleRate :: "real option"
  batchSize :: "int option"
  batchInterval :: "int option"
  maxQueueSize :: "int option"
  timeout :: "int option"
  debug :: "bool option"

text \<open>
  \<^verbatim>\<open>getConfig()\<close> of config.ts when the environment sets only the API key and the base URL:
  the required strings, \<^verbatim>\<open>DEFAULT_CONFIG\<close>, the parsed defaults of the overrides, and debug off.
\<close>

definition getConfig_defaults :: "string \<Rightarrow> string \<Rightarrow> LogSentinelConfig" where
  "getConfig_defaults key url =
     \<lparr>apiKey = key, baseUrl = url, enabled = Some True, sampleRate = Some 1,
      batchSize = Some 10, batchInterval = Some 5000, maxQueueSize = Some 1000,
      timeout = Some 5000, debug = Some False\<rparr>"

record 'a LogBatch =
  logs :: "'a list"
  batchId :: string
  sentAt :: string

text \<open>
  What one call of \<^verbatim>\<open>fetch\<close> does, as \<^verbatim>\<open>sendBatch\<close> sees it: the promise resolves with a
  response that has a status, or it rejects (a transport failure, or the abort that the
  timeout timer triggers). \<^verbatim>\<open>response.ok\<close> is true for the statuses 200 to 299.
\<close>

datatype outcome = Response int | Rejected

definition response_ok :: "int \<Rightarrow> bool" where
  "response_ok status = (200 \<le> status \<and> status \<le> 299)"

text \<open>The exceptions of \<^verbatim>\<open>sendBatch\<close>: its own \<^verbatim>\<open>NetworkError\<close>, or the rejection of \<^verbatim>\<open>fetch\<close>.\<close>

datatype js_error = NetworkError int | FetchRejected

text \<open>
  The observable actions, in the order they happen: a \<^verbatim>\<open>fetch\<close> of a batch (with the attempt
  number), a wait of so many milliseconds (\<^verbatim>\<open>setTimeout(resolve, delay)\<close>), and the
  \<^verbatim>\<open>console.warn\<close> of \<^verbatim>\<open>flush\<close>. Debug output to the console is not recorded.
\<close>

datatype 'a effect = Fetch "'a LogBatch" nat | Sleep nat | Warn js_error

definition maxAttempts :: nat where
  "maxAttempts = 3"

text \<open>
  The \<^verbatim>\<open>try\<close> block of \<^verbatim>\<open>sendBatch\<close>: awaits the fetch, and throws \<^verbatim>\<open>NetworkError\<close> when the
  response is not ok. Both the rejection and the throw reach the same \<^verbatim>\<open>catch\<close>.
\<close>

definition try_fetch :: "outcome \<Rightarrow> js_error + unit" where
  "try_fetch r =
     (case r of
        Response status \<Rightarrow> if \<not> response_ok status then Inl (NetworkError status) else Inr ()
      | Rejected \<Rightarrow> Inl FetchRejected)"

text \<open>
  \<^verbatim>\<open>sendBatch(batch, attempt = 1)\<close>. The network is the function \<open>net\<close> from the attempt
  number to the outcome of the fetch issued by that attempt. The result is the list of
  actions and either the exception that the returned promise rejects with or a normal
  completion. In the \<^verbatim>\<open>catch\<close> block, when \<^verbatim>\<open>attempt < maxAttempts\<close> the delay is
  \<^verbatim>\<open>Math.pow(2, attempt) * 1000\<close> milliseconds and the call recurs with \<^verbatim>\<open>attempt + 1\<close>;
  otherwise the error is thrown again.
\<close>

function sendBatch :: "(nat \<Rightarrow> outcome) \<Rightarrow> 'a LogBatch \<Rightarrow> nat \<Rightarrow> 'a effect list \<times> (js_error + unit)" where
  "sendBatch net batch attempt =
     (case try_fetch (net attempt) of
        Inr _ \<Rightarrow> ([Fetch batch attempt], Inr ())
      | Inl error \<Rightarrow>
          if attempt < maxAttempts then
            (let delay = 2 ^ attempt * 1000;
                 (later, result) = sendBatch net batch (attempt + 1)
             in ([Fetch batch attempt, Sleep delay] @ later, result))
          else ([Fetch batch attempt], Inl error))"
  by pat_completeness auto
termination
  by (relation "measure (\<lambda>(net, batch, attempt). maxAttempts - attempt)") auto

declare sendBatch.simps [simp del]

text \<open>
  \<^verbatim>\<open>class LogSentinelClient\<close>. The constructor builds the queue from \<^verbatim>\<open>config.maxQueueSize\<close>
  and starts the interval timer; the field \<^verbatim>\<open>flushTimer\<close> holds its handle, here the period
  the timer was set with.
\<close>

datatype timer = Interval "int option"

record 'a LogSentinelClient =
  config :: LogSentinelConfig
  logQueue :: "'a LogQueue"
  flushTimer :: "timer option"

definition new_LogSentinelClient :: "LogSentinelConfig \<Rightarrow> 'a LogSentinelClient" where
  "new_LogSentinelClient cfg =
     \<lparr>config = cfg, logQueue = new_LogQueue (maxQueueSize cfg),
      flushTimer = Some (Interval (batchInterval cfg))\<rparr>"

text \<open>
  \<^verbatim>\<open>this.config.batchSize!\<close> as the delete count of \<^verbatim>\<open>splice\<close>: an absent value converts to 0.
\<close>

definition deleteCount :: "int option \<Rightarrow> int" where
  "deleteCount n = (case n of None \<Rightarrow> 0 | Some k \<Rightarrow> k)"

text \<open>
  \<^verbatim>\<open>flush()\<close>. \<open>bid\<close> and \<open>now\<close> are the values that \<^verbatim>\<open>generateBatchId()\<close> and
  \<^verbatim>\<open>new Date().toISOString()\<close> return in this call. The result is the client afterwards, the
  actions, and how the promise settles: the \<^verbatim>\<open>catch\<close> turns an exception of \<^verbatim>\<open>sendBatch\<close>
  into a warning, and nothing else in the body throws.
\<close>

definition flush ::
  "(nat \<Rightarrow> outcome) \<Rightarrow> string \<Rightarrow> string \<Rightarrow> 'a LogSentinelClient
     \<Rightarrow> 'a LogSentinelClient \<times> 'a effect list \<times> (js_error + unit)" where
  "flush net bid now c =
     (if isEmpty (logQueue c) then (c, [], Inr ())
      else
        let (ls, q') = dequeue (logQueue c) (deleteCount (batchSize (config c)));
            c' = c\<lparr>logQueue := q'\<rparr>
        in if length ls = 0 then (c', [], Inr ())
           else
             let batch = \<lparr>logs = ls, batchId = bid, sentAt = now\<rparr>;
                 (sent, result) = sendBatch net batch 1
             in (case result of
                   Inr _ \<Rightarrow> (c', sent, Inr ())
                 | Inl error \<Rightarrow> (c', sent @ [Warn error], Inr ())))"

text \<open>
  \<^verbatim>\<open>log(payload)\<close>. \<open>draw\<close> is the value of \<^verbatim>\<open>Math.random()\<close>. A comparison with an absent
  \<^verbatim>\<open>sampleRate\<close> or \<^verbatim>\<open>batchSize\<close> is false. The flush that \<^verbatim>\<open>log\<close> starts is not awaited; its
  actions are listed as if it ran to its end at once.
\<close>

definition client_log ::
  "(nat \<Rightarrow> outcome) \<Rightarrow> string \<Rightarrow> string \<Rightarrow> 'a LogSentinelClient \<Rightarrow> 'a \<Rightarrow> real
     \<Rightarrow> 'a LogSentinelClient \<times> 'a effect list" where
  "client_log net bid now c payload draw =
     (if (case sampleRate (config c) of None \<Rightarrow> False | Some rate \<Rightarrow> draw > rate) then (c, [])
      else
        let c1 = c\<lparr>logQueue := enqueue (logQueue c) payload\<rparr>
        in if (case batchSize (config c1) of None \<Rightarrow> False
               | Some n \<Rightarrow> int (size_q (logQueue c1)) \<ge> n)
           then (let (c2, sent, _) = flush net bid now c1 in (c2, sent))
           else (c1, []))"

text \<open>\<^verbatim>\<open>destroy()\<close>: clears the interval timer (the field keeps the handle) and flushes once.\<close>

definition destroy ::
  "(nat \<Rightarrow> outcome) \<Rightarrow> string \<Rightarrow> string \<Rightarrow> 'a LogSentinelClient
     \<Rightarrow> 'a LogSentinelClient \<times> 'a effect list \<times> (js_error + unit)" where
  "destroy net bid now c = flush net bid now c"

text \<open>
  The module variable \<^verbatim>\<open>clientInstance\<close> is the state of \<^verbatim>\<open>getClient\<close> and \<^verbatim>\<open>resetClient\<close>;
  \<^verbatim>\<open>null\<close> is \<^const>\<open>None\<close>. \<^verbatim>\<open>getClient\<close> returns the instance and the new value of the variable.
\<close>

definition getClient ::
  "LogSentinelConfig \<Rightarrow> 'a LogSentinelClient option
     \<Rightarrow> 'a LogSentinelClient \<times> 'a LogSentinelClient option" where
  "getClient cfg clientInstance =
     (case clientInstance of
        None \<Rightarrow> (let c = new_LogSentinelClient cfg in (c, Some c))
      | Some c \<Rightarrow> (c, Some c))"

definition resetClient ::
  "(nat \<Rightarrow> outcome) \<Rightarrow> string \<Rightarrow> string \<Rightarrow> 'a LogSentinelClient option
     \<Rightarrow> 'a effect list \<times> 'a LogSentinelClient option" where
  "resetClient net bid now clientInstance =
     (case clientInstance of
        None \<Rightarrow> ([], None)
      | Some c \<Rightarrow> (let (_, sent, _) = destroy net bid now c in (sent, None)))"

text \<open>
  The calls that reach the module variable or its instance, each with the values its
  environment supplies, and the state of the variable after a sequence of them.
\<close>

datatype 'a call =
    CallGetClient LogSentinelConfig
  | CallLog "nat \<Rightarrow> outcome" string string 'a real
  | CallFlush "nat \<Rightarrow> outcome" string string

fun after_call :: "'a LogSentinelClient option \<Rightarrow> 'a call \<Rightarrow> 'a LogSentinelClient option" where
  "after_call st (CallGetClient cfg) = snd (getClient cfg st)"
| "after_call st (CallLog net bid now payload draw) =
     map_option (\<lambda>c. fst (client_log net bid now c payload draw)) st"
| "after_call st (CallFlush net bid now) = map_option (\<lambda>c. fst (flush net bid now c)) st"

definition after_calls :: "'a LogSentinelClient option \<Rightarrow> 'a call list \<Rightarrow> 'a LogSentinelClient option" where
  "after_calls st calls = foldl after_call st calls"

text \<open>Reading a list of actions: the attempt numbers of its fetches, and its batches.\<close>

fun attempts_of :: "'a effect list \<Rightarrow> nat list" where
  "attempts_of [] = []"
| "attempts_of (Fetch b a # es) = a # attempts_of es"
| "attempts_of (_ # es) = attempts_of es"

fun batches_of :: "'a effect list \<Rightarrow> 'a LogBatch list" where
  "batches_of [] = []"
| "batches_of (Fetch b a # es) = b # batches_of es"
| "batches_of (_ # es) = batches_of es"

fun delays_of :: "'a effect list \<Rightarrow> nat list" where
  "delays_of [] = []"
| "delays_of (Sleep d # es) = d # delays_of es"
| "delays_of (_ # es) = delays_of es"

text \<open>A fetch fails when it rejects or when its response is not ok.\<close>

fun failing :: "outcome \<Rightarrow> bool" where
  "failing Rejected = True"
| "failing (Response status) = (\<not> response_ok status)"

section \<open>The sanitizer (utils.ts)\<close>

text \<open>
  The values that \<^verbatim>\<open>sanitizeBody\<close> receives and returns are JSON-like trees. A string is a list
  of code units below 256 and a number is a real (JSON has no NaN). The entries of an
  object are listed in the order of \<^verbatim>\<open>Object.entries\<close>. \<^verbatim>\<open>undefined\<close> is \<^const>\<open>None\<close> of
  \<open>json option\<close>.
\<close>

datatype json =
    JNull
  | JBool bool
  | JNum real
  | JStr string
  | JArr "json list"
  | JObj "(string \<times> json) list"

text \<open>
  \<^verbatim>\<open>String.prototype.toLowerCase\<close> on code units below 256: the letters A to Z and the
  capital letters of Latin-1 (192 to 222 without the multiplication sign 215) move up by
  32, every other code unit stays.
\<close>

definition toLowerCase_char :: "char \<Rightarrow> char" where
  "toLowerCase_char c =
     (let n = of_char c :: nat
      in if (65 \<le> n \<and> n \<le> 90) \<or> (192 \<le> n \<and> n \<le> 222 \<and> n \<noteq> 215)
         then char_of (n + 32) else c)"

definition toLowerCase :: "string \<Rightarrow> string" where
  "toLowerCase s = map toLowerCase_char s"

text \<open>\<^verbatim>\<open>s.includes(field)\<close>: \<open>field\<close> occurs in \<open>s\<close> as a contiguous run.\<close>

definition str_includes :: "string \<Rightarrow> string \<Rightarrow> bool" where
  "str_includes s field = sublist field s"

definition sensitiveFields :: "string list" where
  "sensitiveFields =
     [''password'', ''token'', ''apiKey'', ''api_key'', ''secret'', ''auth'', ''authorization'',
      ''creditCard'', ''credit_card'', ''ssn'', ''privateKey'', ''private_key'']"

text \<open>
  The test of the loop body:
  \<^verbatim>\<open>sensitiveFields.some(field => key.toLowerCase().includes(field))\<close>.
\<close>

definition is_sensitive :: "string \<Rightarrow> bool" where
  "is_sensitive key =
     (let lowerKey = toLowerCase key
      in list_ex (\<lambda>field. str_includes lowerKey field) sensitiveFields)"

definition REDACTED :: json where
  "REDACTED = JStr ''[REDACTED]''"

text \<open>\<^verbatim>\<open>typeof v === 'object' && v !== null\<close>: arrays and objects.\<close>

fun is_object :: "json \<Rightarrow> bool" where
  "is_object (JArr _) = True"
| "is_object (JObj _) = True"
| "is_object _ = False"

text \<open>
  \<^verbatim>\<open>sanitized[key] = v\<close> on an object that started as \<^verbatim>\<open>{}\<close>: an existing own property keeps
  its place and takes the new value, a new one goes to the end. The key \<^verbatim>\<open>__proto__\<close> is the
  exception: the assignment reaches the accessor of \<^verbatim>\<open>Object.prototype\<close>, which creates no
  own property (it sets the prototype when \<open>v\<close> is an object). The model keeps the own
  properties only, which is what \<^verbatim>\<open>JSON.stringify\<close> later sends.
\<close>

definition assign :: "(string \<times> json) list \<Rightarrow> string \<Rightarrow> json \<Rightarrow> (string \<times> json) list" where
  "assign obj key v = (if key = ''__proto__'' then obj else AList.update key v obj)"

text \<open>
  \<^verbatim>\<open>redactSensitiveFields\<close>: a value that is not an object is returned as it is, an array is
  mapped, and for an object the loop over \<^verbatim>\<open>Object.entries(obj)\<close> fills \<^verbatim>\<open>sanitized\<close>. This
  is the value the function returns when the call stack has room for its recursion; the
  function with the stack counted follows.
\<close>

fun redactSensitiveFields :: "json \<Rightarrow> json" where
  "redactSensitiveFields JNull = JNull"
| "redactSensitiveFields (JBool b) = JBool b"
| "redactSensitiveFields (JNum n) = JNum n"
| "redactSensitiveFields (JStr s) = JStr s"
| "redactSensitiveFields (JArr items) = JArr (map (\<lambda>item. redactSensitiveFields item) items)"
| "redactSensitiveFields (JObj entries) =
     JObj (foldl (\<lambda>sanitized (key, val).
              if is_sensitive key then assign sanitized key REDACTED
              else if is_object val then assign sanitized key (redactSensitiveFields val)
              else assign sanitized key val) [] entries)"

text \<open>
  The recursion of \<^verbatim>\<open>redactSensitiveFields\<close> has no depth guard, and every nested call takes
  room on the call stack. \<open>redactSensitiveFields_on_stack d\<close> is the same function when the
  stack has room for \<open>d\<close> nested calls: a call that finds no room throws a \<^verbatim>\<open>RangeError\<close>
  (\<^const>\<open>None\<close>), which ends the loop or the \<^verbatim>\<open>map\<close> it was made from.
\<close>

fun redactSensitiveFields_on_stack :: "nat \<Rightarrow> json \<Rightarrow> json option" where
  "redactSensitiveFields_on_stack 0 obj = None"
| "redactSensitiveFields_on_stack (Suc d) JNull = Some JNull"
| "redactSensitiveFields_on_stack (Suc d) (JBool b) = Some (JBool b)"
| "redactSensitiveFields_on_stack (Suc d) (JNum n) = Some (JNum n)"
| "redactSensitiveFields_on_stack (Suc d) (JStr s) = Some (JStr s)"
| "redactSensitiveFields_on_stack (Suc d) (JArr items) =
     map_option JArr (those (map (\<lambda>item. redactSensitiveFields_on_stack d item) items))"
| "redactSensitiveFields_on_stack (Suc d) (JObj entries) =
     map_option JObj
       (foldl (\<lambda>state (key, val).
            case state of
              None \<Rightarrow> None
            | Some sanitized \<Rightarrow>
                if is_sensitive key then Some (assign sanitized key REDACTED)
                else if is_object val
                  then map_option (\<lambda>r. assign sanitized key r) (redactSensitiveFields_on_stack d val)
                  else Some (assign sanitized key val))
          (Some []) entries)"

text \<open>
  The number of nested calls that the walk of a value makes: one for the value, and below
  it the deepest of the calls made for the elements of an array, or for the values of an
  object that are objects under a key that is not sensitive.
\<close>

fun calls :: "json \<Rightarrow> nat" where
  "calls (JArr items) = Suc (foldr max (map calls items) 0)"
| "calls (JObj entries) =
     Suc (foldr max
            (map (\<lambda>(key, val). if \<not> is_sensitive key \<and> is_object val then calls val else 0) entries)
            0)"
| "calls _ = Suc 0"

text \<open>\<^verbatim>\<open>!body\<close> for a body that is not \<^verbatim>\<open>undefined\<close>: null, false, 0 and the empty string.\<close>

fun falsy :: "json \<Rightarrow> bool" where
  "falsy JNull = True"
| "falsy (JBool b) = (\<not> b)"
| "falsy (JNum n) = (n = 0)"
| "falsy (JStr s) = (s = [])"
| "falsy _ = False"

text \<open>
  What \<^verbatim>\<open>sanitizeBody\<close> takes from the language and its runtime: \<^verbatim>\<open>JSON.parse\<close>,
  \<^verbatim>\<open>JSON.stringify\<close> and \<^verbatim>\<open>String\<close> applied to a value that is not a string, each \<^const>\<open>None\<close>
  where it throws (\<^verbatim>\<open>JSON.parse\<close> on text that is not JSON, any of them on a value nested too
  deep for the stack), and the room on the stack when the walk starts.
\<close>

record runtime =
  JSON_parse :: "string \<Rightarrow> json option"
  JSON_stringify :: "json \<Rightarrow> string option"
  String_of :: "json \<Rightarrow> string option"
  stack :: nat

datatype thrown = Thrown

definition truncation_marker :: "string \<Rightarrow> json" where
  "truncation_marker jsonString =
     JObj [(''_truncated'', JBool True),
           (''_originalSize'', JNum (real (length jsonString))),
           (''_preview'', JStr (take 500 jsonString @ ''...''))]"

text \<open>\<^verbatim>\<open>typeof body === 'string' ? body : JSON.stringify(body)\<close>\<close>

definition jsonString_of :: "runtime \<Rightarrow> json \<Rightarrow> string option" where
  "jsonString_of rt b = (case b of JStr s \<Rightarrow> Some s | _ \<Rightarrow> JSON_stringify rt b)"

text \<open>
  The \<^verbatim>\<open>try\<close> block: the value it returns, or \<^const>\<open>None\<close> when one of \<^verbatim>\<open>JSON.stringify\<close>,
  \<^verbatim>\<open>JSON.parse\<close> and \<^verbatim>\<open>redactSensitiveFields\<close> throws.
\<close>

definition try_block :: "runtime \<Rightarrow> json \<Rightarrow> json option" where
  "try_block rt b =
     (case jsonString_of rt b of
        None \<Rightarrow> None
      | Some jsonString \<Rightarrow>
          if length jsonString > 10000 then Some (truncation_marker jsonString)
          else
            (case (case b of JStr s \<Rightarrow> JSON_parse rt jsonString | _ \<Rightarrow> Some b) of
               None \<Rightarrow> None
             | Some parsed \<Rightarrow>
                 if is_object parsed then redactSensitiveFields_on_stack (stack rt) parsed
                 else Some parsed))"

text \<open>
  The \<^verbatim>\<open>catch\<close> block: \<^verbatim>\<open>String(body)\<close>, which is the body itself for a string, cut to 500
  characters and \<^verbatim>\<open>...\<close> when it is longer. An exception of \<^verbatim>\<open>String(body)\<close> leaves
  \<^verbatim>\<open>sanitizeBody\<close>.
\<close>

definition cut500 :: "string \<Rightarrow> string" where
  "cut500 str = (if length str > 500 then take 500 str @ ''...'' else str)"

definition catch_block :: "runtime \<Rightarrow> json \<Rightarrow> thrown + json option" where
  "catch_block rt b =
     (case (case b of JStr s \<Rightarrow> Some s | _ \<Rightarrow> String_of rt b) of
        None \<Rightarrow> Inl Thrown
      | Some str \<Rightarrow> Inr (Some (JStr (cut500 str))))"

text \<open>
  \<^verbatim>\<open>sanitizeBody\<close>: \<^verbatim>\<open>undefined\<close> for a falsy body, else what the \<^verbatim>\<open>try\<close> block returns, else
  the \<^verbatim>\<open>catch\<close> block.
\<close>

definition sanitizeBody :: "runtime \<Rightarrow> json option \<Rightarrow> thrown + json option" where
  "sanitizeBody rt body =
     (case body of
        None \<Rightarrow> Inr None
      | Some b \<Rightarrow>
          if falsy b then Inr None
          else
            (case try_block rt b of
               Some result \<Rightarrow> Inr (Some result)
             | None \<Rightarrow> catch_block rt b))"

text \<open>
  Reading a tree: one step goes to the value of a key of an object or to an element of an
  array, a path is a list of steps from the root.
\<close>

datatype step = Key string | Index nat

fun get_step :: "json \<Rightarrow> step \<Rightarrow> json option" where
  "get_step (JObj entries) (Key k) = map_of entries k"
| "get_step (JArr items) (Index i) = (if i < length items then Some (items ! i) else None)"
| "get_step _ _ = None"

fun get_path :: "json \<Rightarrow> step list \<Rightarrow> json option" where
  "get_path v [] = Some v"
| "get_path v (s # p) = (case get_step v s of None \<Rightarrow> None | Some w \<Rightarrow> get_path w p)"

text \<open>
  A step that the redaction walks through: an array index, or a key that is neither
  sensitive nor \<^verbatim>\<open>__proto__\<close>.
\<close>

fun open_step :: "step \<Rightarrow> bool" where
  "open_step (Key k) = (\<not> is_sensitive k \<and> k \<noteq> ''__proto__'')"
| "open_step (Index i) = True"

text \<open>
  The objects of JavaScript that the trees stand for: at every depth the keys of an object
  are distinct.
\<close>

fun distinct_keys :: "json \<Rightarrow> bool" where
  "distinct_keys (JObj entries) =
     (distinct (map fst entries) \<and> list_all (\<lambda>(k, v). distinct_keys v) entries)"
| "distinct_keys (JArr items) = list_all distinct_keys items"
| "distinct_keys _ = True"

text \<open>
  What the loop stores under a key: the marker, or the redacted value (a value that is not
  an object is its own redaction).
\<close>

definition redact_entry :: "string \<Rightarrow> json \<Rightarrow> json" where
  "redact_entry key val = (if is_sensitive key then REDACTED else redactSensitiveFields val)"

text \<open>
  In a tree, every sensitive key at every depth carries the redaction marker.
\<close>

fun all_redacted :: "json \<Rightarrow> bool" where
  "all_redacted (JObj entries) =
     list_all (\<lambda>(k, v). if is_sensitive k then v = REDACTED else all_redacted v) entries"
| "all_redacted (JArr items) = list_all all_redacted items"
| "all_redacted _ = True"

section \<open>Properties of the event queue\<close>

subsection \<open>Facts about the queue\<close>

lemma maxSize_enqueue: "maxSize (enqueue q x) = maxSize q"
  by (simp add: enqueue_def Let_def)

lemma maxSize_enqueue_all: "maxSize (enqueue_all q xs) = maxSize q"
  unfolding enqueue_all_def
  by (induction xs arbitrary: q) (simp_all add: maxSize_enqueue)

lemma enqueue_all_snoc: "enqueue_all q (xs @ [x]) = enqueue (enqueue_all q xs) x"
  by (simp add: enqueue_all_def)

lemma enqueue_keeps_bound:
  assumes "0 < maxSize q" and "int (size_q q) \<le> maxSize q"
  shows "int (size_q (enqueue q x)) \<le> maxSize q"
  using assms by (auto simp: enqueue_def size_q_def Let_def)

lemma enqueue_all_bound:
  assumes "0 < maxSize q" and "int (size_q q) \<le> maxSize q"
  shows "int (size_q (enqueue_all q xs)) \<le> maxSize q"
proof (induction xs rule: rev_induct)
  case Nil
  show ?case using assms by (simp add: enqueue_all_def)
next
  case (snoc x xs)
  have "0 < maxSize (enqueue_all q xs)"
    using assms(1) by (simp add: maxSize_enqueue_all)
  moreover have "int (size_q (enqueue_all q xs)) \<le> maxSize (enqueue_all q xs)"
    using snoc by (simp add: maxSize_enqueue_all)
  ultimately have "int (size_q (enqueue (enqueue_all q xs) x)) \<le> maxSize (enqueue_all q xs)"
    by (rule enqueue_keeps_bound)
  then show ?case by (simp add: enqueue_all_snoc maxSize_enqueue_all)
qed

lemma size_new_LogQueue: "size_q (new_LogQueue m) = 0"
  by (simp add: new_LogQueue_def size_q_def)

lemma enqueue_at_capacity:
  assumes "0 < maxSize q" and "int (size_q q) = maxSize q"
  shows "\<exists>oldest rest. queue q = oldest # rest \<and> queue (enqueue q x) = rest @ [x]"
proof -
  from assms have "queue q \<noteq> []" by (auto simp: size_q_def)
  then obtain oldest rest where "queue q = oldest # rest" by (cases "queue q") auto
  then show ?thesis using assms by (simp add: enqueue_def size_q_def)
qed

lemma enqueue_below_capacity:
  assumes "int (size_q q) < maxSize q"
  shows "queue (enqueue q x) = queue q @ [x]"
  using assms by (simp add: enqueue_def size_q_def)

lemma enqueue_admits: "queue (enqueue q x) \<noteq> [] \<and> last (queue (enqueue q x)) = x"
  by (simp add: enqueue_def Let_def)

text \<open>What a fresh queue holds after a run of enqueues: the newest \<open>maxSize\<close> of them.\<close>

lemma queue_enqueue_all_fresh:
  assumes "0 < n"
  shows "queue (enqueue_all (new_LogQueue (Some n)) xs) = drop (length xs - nat n) xs"
proof (induction xs rule: rev_induct)
  case Nil
  show ?case by (simp add: enqueue_all_def new_LogQueue_def)
next
  case (snoc x xs)
  let ?q = "enqueue_all (new_LogQueue (Some n)) xs"
  have m: "maxSize ?q = n" by (simp add: maxSize_enqueue_all new_LogQueue_def)
  have len: "length (queue ?q) = length xs - (length xs - nat n)"
    by (simp add: snoc)
  show ?case
  proof (cases "int (length (queue ?q)) \<ge> n")
    case True
    with len assms have ge: "nat n \<le> length xs" by linarith
    have "queue (enqueue ?q x) = tl (queue ?q) @ [x]"
      using True m by (simp add: enqueue_def)
    also have "\<dots> = drop (Suc (length xs - nat n)) xs @ [x]"
      by (simp add: snoc drop_Suc tl_drop)
    also have "\<dots> = drop (length (xs @ [x]) - nat n) (xs @ [x])"
      using ge assms by (simp add: Suc_diff_le)
    finally show ?thesis by (simp add: enqueue_all_snoc)
  next
    case False
    with len assms have lt: "length xs < nat n" by linarith
    have "queue (enqueue ?q x) = queue ?q @ [x]"
      using False m by (simp add: enqueue_def Let_def)
    then show ?thesis using lt by (simp add: snoc enqueue_all_snoc)
  qed
qed

lemma dequeue_splits: "fst (dequeue q n) @ queue (snd (dequeue q n)) = queue q"
  by (simp add: dequeue_def)

subsection \<open>Claims about the queue\<close>

text \<open>
  C1 (queue bound). A queue created with a positive capacity \<open>n\<close> holds at most \<open>n\<close> entries
  after each of the enqueue calls of any sequence \<open>xs\<close> (the state after the first \<open>k\<close> calls,
  for every \<open>k\<close>). An enqueue into a queue that is at capacity removes exactly the entry at the
  front, the oldest one still present, and keeps the others in order. Every enqueue, at
  capacity or not, admits the new entry at the back: \<^const>\<open>enqueue\<close> is a total function with
  no failure result, as the method has no throwing or waiting path.
\<close>

theorem C1_queue_bound:
  fixes n :: int and xs :: "'a list" and q :: "'a LogQueue" and x :: 'a
  assumes "0 < n"
  shows "(\<forall>k \<le> length xs. int (size_q (enqueue_all (new_LogQueue (Some n)) (take k xs))) \<le> n)
       \<and> (maxSize q = n \<and> int (size_q q) \<le> n \<longrightarrow> int (size_q (enqueue q x)) \<le> n)
       \<and> (maxSize q = n \<and> int (size_q q) = n \<longrightarrow>
            (\<exists>oldest rest. queue q = oldest # rest \<and> queue (enqueue q x) = rest @ [x]))
       \<and> (maxSize q = n \<and> int (size_q q) < n \<longrightarrow> queue (enqueue q x) = queue q @ [x])
       \<and> queue (enqueue q x) \<noteq> [] \<and> last (queue (enqueue q x)) = x"
proof -
  have fresh: "int (size_q (enqueue_all (new_LogQueue (Some n)) ys)) \<le> n" for ys :: "'a list"
  proof -
    let ?q0 = "new_LogQueue (Some n) :: 'a LogQueue"
    have "0 < maxSize ?q0" and "int (size_q ?q0) \<le> maxSize ?q0"
      using assms by (simp_all add: new_LogQueue_def size_q_def)
    then have "int (size_q (enqueue_all ?q0 ys)) \<le> maxSize ?q0"
      by (rule enqueue_all_bound)
    then show ?thesis by (simp add: new_LogQueue_def)
  qed
  have step: "maxSize q = n \<and> int (size_q q) \<le> n \<longrightarrow> int (size_q (enqueue q x)) \<le> n"
    using assms enqueue_keeps_bound [of q x] by auto
  have evict: "maxSize q = n \<and> int (size_q q) = n \<longrightarrow>
      (\<exists>oldest rest. queue q = oldest # rest \<and> queue (enqueue q x) = rest @ [x])"
    using assms enqueue_at_capacity [of q x] by auto
  have below: "maxSize q = n \<and> int (size_q q) < n \<longrightarrow> queue (enqueue q x) = queue q @ [x]"
    using enqueue_below_capacity [of q x] by auto
  from fresh step evict below enqueue_admits [of q x] show ?thesis by blast
qed

theorem C1_queue_bound_witness:
  "(0::int) < 2
   \<and> int (size_q (enqueue_all (new_LogQueue (Some 2)) (take 3 [10, 20, 30::nat]))) \<le> 2
   \<and> queue (enqueue \<lparr>queue = [10, 20::nat], maxSize = 2\<rparr> 30) = [20, 30]"
proof -
  have pos: "(0::int) < 2" by simp
  note t = C1_queue_bound [OF pos, of "[10, 20, 30::nat]" "\<lparr>queue = [10, 20::nat], maxSize = 2\<rparr>" 30]
  from t have "\<forall>k \<le> length [10, 20, 30::nat].
      int (size_q (enqueue_all (new_LogQueue (Some 2)) (take k [10, 20, 30::nat]))) \<le> 2"
    by (rule conjunct1)
  then have a: "int (size_q (enqueue_all (new_LogQueue (Some 2)) (take 3 [10, 20, 30::nat]))) \<le> 2"
    by (elim allE [of _ 3]) simp
  from t have b: "queue (enqueue \<lparr>queue = [10, 20::nat], maxSize = 2\<rparr> 30) = [20, 30]"
    by (simp add: size_q_def)
  from pos a b show ?thesis by blast
qed

text \<open>
  C2 (FIFO dequeue law), as stated: after any enqueues into a fresh queue, \<open>dequeue(n)\<close> with
  \<open>n\<close> at least the number of enqueued entries returns the enqueued sequence. It fails once
  more entries were enqueued than the capacity: with capacity 1, after enqueueing 1 and 2,
  \<open>dequeue(2)\<close> returns only the entry 2, because the enqueue of 2 evicted 1.
\<close>

theorem C2_fifo_counterexample:
  "fst (dequeue (enqueue_all (new_LogQueue (Some 1)) [1::nat, 2]) 2) = [2]
   \<and> fst (dequeue (enqueue_all (new_LogQueue (Some 1)) [1::nat, 2]) 2) \<noteq> [1, 2]"
  by (simp add: dequeue_def enqueue_all_def enqueue_def new_LogQueue_def)

text \<open>
  C2, amended. After the enqueues \<open>xs\<close> into a fresh queue of positive capacity \<open>cap\<close> the
  queue holds the newest \<open>cap\<close> entries of \<open>xs\<close> in enqueue order. \<open>dequeue(n)\<close> returns the
  first \<open>n\<close> of them (the oldest still present) in that order and leaves the others; what is
  returned followed by what is left is the former content. When \<open>n\<close> is at least the number
  of entries present, all of them are returned and the queue is left empty; on an empty queue
  the result is the empty sequence. When no more than \<open>cap\<close> entries were enqueued and \<open>n\<close> is
  at least their number, the result is \<open>xs\<close> itself. \<^const>\<open>dequeue\<close> has no failure result.
\<close>

theorem C2_fifo_dequeue:
  fixes cap n :: int and xs :: "'a list"
  assumes "0 < cap"
  defines "q \<equiv> enqueue_all (new_LogQueue (Some cap)) xs"
  shows "queue q = drop (length xs - nat cap) xs
       \<and> fst (dequeue q n) = take (nat n) (queue q)
       \<and> queue (snd (dequeue q n)) = drop (nat n) (queue q)
       \<and> maxSize (snd (dequeue q n)) = maxSize q
       \<and> fst (dequeue q n) @ queue (snd (dequeue q n)) = queue q
       \<and> (int (size_q q) \<le> n \<longrightarrow> fst (dequeue q n) = queue q \<and> queue (snd (dequeue q n)) = [])
       \<and> (isEmpty q \<longrightarrow> fst (dequeue q n) = [])
       \<and> (int (length xs) \<le> cap \<and> int (length xs) \<le> n \<longrightarrow> fst (dequeue q n) = xs)"
proof -
  have content: "queue q = drop (length xs - nat cap) xs"
    unfolding q_def using assms(1) by (rule queue_enqueue_all_fresh)
  have all: "int (size_q q) \<le> n \<longrightarrow> fst (dequeue q n) = queue q \<and> queue (snd (dequeue q n)) = []"
    by (auto simp: dequeue_def size_q_def)
  have whole: "int (length xs) \<le> cap \<and> int (length xs) \<le> n \<longrightarrow> fst (dequeue q n) = xs"
  proof
    assume h: "int (length xs) \<le> cap \<and> int (length xs) \<le> n"
    then have "length xs - nat cap = 0" and "length xs \<le> nat n" by linarith+
    then show "fst (dequeue q n) = xs" by (simp add: dequeue_def content)
  qed
  have empty: "isEmpty q \<longrightarrow> fst (dequeue q n) = []"
    by (simp add: isEmpty_def dequeue_def)
  have ret: "fst (dequeue q n) = take (nat n) (queue q)"
    and rest: "queue (snd (dequeue q n)) = drop (nat n) (queue q)"
    and cap: "maxSize (snd (dequeue q n)) = maxSize q"
    by (simp_all add: dequeue_def)
  from content ret rest cap dequeue_splits [of q n] all empty whole show ?thesis
    by blast
qed

theorem C2_fifo_dequeue_witness:
  "(0::int) < 2
   \<and> fst (dequeue (enqueue_all (new_LogQueue (Some 2)) [7, 8, 9::nat]) 1) = [8]
   \<and> queue (snd (dequeue (enqueue_all (new_LogQueue (Some 2)) [7, 8, 9::nat]) 1)) = [9]
   \<and> fst (dequeue (enqueue_all (new_LogQueue (Some 5)) [7, 8, 9::nat]) 4) = [7, 8, 9]"
  using C2_fifo_dequeue [of 2 "[7, 8, 9::nat]" 1] C2_fifo_dequeue [of 5 "[7, 8, 9::nat]" 4]
  by simp

section \<open>Properties of batching and delivery\<close>

subsection \<open>Facts about delivery\<close>

lemma try_fetch_failing: "failing r \<longleftrightarrow> isl (try_fetch r)"
  by (cases r) (simp_all add: try_fetch_def)

lemma try_fetch_ok: "\<not> failing r \<longleftrightarrow> try_fetch r = Inr ()"
  by (cases r) (simp_all add: try_fetch_def)

lemma attempts_of_append: "attempts_of (xs @ ys) = attempts_of xs @ attempts_of ys"
  by (induction xs rule: attempts_of.induct) simp_all

lemma batches_of_append: "batches_of (xs @ ys) = batches_of xs @ batches_of ys"
  by (induction xs rule: batches_of.induct) simp_all

lemma sendBatch_success:
  assumes "\<not> failing (net k)"
  shows "sendBatch net b k = ([Fetch b k], Inr ())"
  using assms by (subst sendBatch.simps) (simp add: try_fetch_ok)

lemma sendBatch_retry:
  assumes "failing (net k)" and "k < maxAttempts"
  shows "sendBatch net b k =
    ([Fetch b k, Sleep (2 ^ k * 1000)] @ fst (sendBatch net b (k + 1)), snd (sendBatch net b (k + 1)))"
proof -
  from assms(1) obtain e where "try_fetch (net k) = Inl e"
    by (auto simp: try_fetch_failing isl_def)
  then show ?thesis using assms(2)
    by (subst sendBatch.simps) (simp add: Let_def case_prod_beta)
qed

lemma sendBatch_give_up:
  assumes "failing (net k)" and "\<not> k < maxAttempts"
  shows "sendBatch net b k = ([Fetch b k], try_fetch (net k))"
proof -
  from assms(1) obtain e where "try_fetch (net k) = Inl e"
    by (auto simp: try_fetch_failing isl_def)
  then show ?thesis using assms(2)
    by (subst sendBatch.simps) simp
qed

lemma sendBatch_batches: "set (batches_of (fst (sendBatch net b k))) = {b}"
proof (induction net b k rule: sendBatch.induct)
  case (1 net batch attempt)
  show ?case
  proof (cases "failing (net attempt)")
    case False
    then show ?thesis by (simp add: sendBatch_success)
  next
    case True
    then obtain e where e: "try_fetch (net attempt) = Inl e"
      by (auto simp: try_fetch_failing isl_def)
    show ?thesis
    proof (cases "attempt < maxAttempts")
      case False
      with True show ?thesis by (simp add: sendBatch_give_up)
    next
      case lt: True
      have "set (batches_of (fst (sendBatch net batch (attempt + 1)))) = {batch}"
        using "1.IH" [OF e lt refl] .
      with True lt show ?thesis by (simp add: sendBatch_retry)
    qed
  qed
qed

lemma sendBatch_first_two:
  assumes "failing (net 1)" and "failing (net 2)"
  shows "sendBatch net b 1 =
    ([Fetch b 1, Sleep 2000, Fetch b 2, Sleep 4000] @ fst (sendBatch net b 3),
     snd (sendBatch net b 3))"
proof -
  have lt1: "1 < maxAttempts" and lt2: "2 < maxAttempts"
    by (simp_all add: maxAttempts_def)
  have n2: "(1::nat) + 1 = 2" and n3: "(2::nat) + 1 = 3"
    by simp_all
  have d1: "(2::nat) ^ 1 * 1000 = 2000" and d2: "(2::nat) ^ 2 * 1000 = 4000"
    by simp_all
  note r1 = sendBatch_retry [of net 1 b, OF assms(1) lt1, unfolded n2 d1]
  note r2 = sendBatch_retry [of net 2 b, OF assms(2) lt2, unfolded n3 d2]
  show ?thesis
    unfolding r1 r2 by simp
qed

lemma sendBatch_fail_fail_ok:
  assumes "failing (net 1)" and "failing (net 2)" and "\<not> failing (net 3)"
  shows "sendBatch net b 1 =
    ([Fetch b 1, Sleep 2000, Fetch b 2, Sleep 4000, Fetch b 3], Inr ())"
  unfolding sendBatch_first_two [OF assms(1,2)] sendBatch_success [of net 3 b, OF assms(3)]
  by simp

lemma sendBatch_fail_fail_fail:
  assumes "failing (net 1)" and "failing (net 2)" and "failing (net 3)"
  shows "sendBatch net b 1 =
    ([Fetch b 1, Sleep 2000, Fetch b 2, Sleep 4000, Fetch b 3], try_fetch (net 3))"
proof -
  have "\<not> 3 < maxAttempts" by (simp add: maxAttempts_def)
  note r3 = sendBatch_give_up [of net 3 b, OF assms(3) this]
  show ?thesis
    unfolding sendBatch_first_two [OF assms(1,2)] r3 by simp
qed

text \<open>The client that \<^verbatim>\<open>flush\<close> leaves does not depend on the network.\<close>

lemma flush_client_independent: "fst (flush net bid now c) = fst (flush net' bid now c)"
  by (simp add: flush_def Let_def case_prod_beta split: sum.splits)

lemma flush_result: "snd (snd (flush net bid now c)) = Inr ()"
  by (simp add: flush_def Let_def case_prod_beta split: sum.splits)

lemma flush_config: "config (fst (flush net bid now c)) = config c"
  by (simp add: flush_def Let_def case_prod_beta split: sum.splits)

lemma flush_sends:
  assumes "\<not> isEmpty (logQueue c)" and "batchSize (config c) = Some n" and "0 < n"
  shows "flush net bid now c =
    (let b = \<lparr>logs = take (nat n) (queue (logQueue c)), batchId = bid, sentAt = now\<rparr>;
         c' = c\<lparr>logQueue := (logQueue c)\<lparr>queue := drop (nat n) (queue (logQueue c))\<rparr>\<rparr>
     in case snd (sendBatch net b 1) of
          Inr _ \<Rightarrow> (c', fst (sendBatch net b 1), Inr ())
        | Inl e \<Rightarrow> (c', fst (sendBatch net b 1) @ [Warn e], Inr ()))"
  using assms
  by (simp add: flush_def isEmpty_def dequeue_def deleteCount_def Let_def case_prod_beta
      split: sum.splits)

lemma flush_batches:
  assumes "b \<in> set (batches_of (fst (snd (flush net bid now c))))"
  shows "logs b \<noteq> [] \<and> (\<exists>n. batchSize (config c) = Some n \<and> int (length (logs b)) \<le> n)
       \<and> logs b = fst (dequeue (logQueue c) (deleteCount (batchSize (config c))))"
proof -
  let ?ls = "fst (dequeue (logQueue c) (deleteCount (batchSize (config c))))"
  let ?b = "\<lparr>logs = ?ls, batchId = bid, sentAt = now\<rparr>"
  have sent: "\<not> isEmpty (logQueue c) \<and> ?ls \<noteq> []"
    using assms
    by (auto simp: flush_def Let_def case_prod_beta split: if_splits)
  then have "batches_of (fst (snd (flush net bid now c))) = batches_of (fst (sendBatch net ?b 1))"
    by (simp add: flush_def Let_def case_prod_beta batches_of_append split: sum.splits)
  with assms have "b \<in> set (batches_of (fst (sendBatch net ?b 1)))" by simp
  then have b: "b = ?b" by (simp add: sendBatch_batches)
  then have ls: "logs b = ?ls" by simp
  from sent have ne: "?ls \<noteq> []" by simp
  have "\<exists>n. batchSize (config c) = Some n \<and> int (length ?ls) \<le> n"
  proof (cases "batchSize (config c)")
    case None
    with ne show ?thesis by (simp add: dequeue_def deleteCount_def)
  next
    case (Some n)
    with ne have "0 < n" by (auto simp: dequeue_def deleteCount_def intro: ccontr)
    with Some show ?thesis by (simp add: dequeue_def deleteCount_def)
  qed
  with ls ne show ?thesis by simp
qed

lemma flush_maxSize: "maxSize (logQueue (fst (flush net bid now c))) = maxSize (logQueue c)"
  by (simp add: flush_def dequeue_def Let_def case_prod_beta split: sum.splits)

lemma client_log_config: "config (fst (client_log net bid now c payload draw)) = config c"
  by (simp add: client_log_def Let_def case_prod_beta flush_config split: option.splits)

lemma client_log_maxSize:
  "maxSize (logQueue (fst (client_log net bid now c payload draw))) = maxSize (logQueue c)"
  by (simp add: client_log_def Let_def case_prod_beta flush_maxSize maxSize_enqueue
      split: option.splits)

lemma client_log_batches:
  assumes "b \<in> set (batches_of (snd (client_log net bid now c payload draw)))"
  shows "logs b \<noteq> [] \<and> (\<exists>n. batchSize (config c) = Some n \<and> int (length (logs b)) \<le> n)"
proof -
  let ?c1 = "c\<lparr>logQueue := enqueue (logQueue c) payload\<rparr>"
  from assms have "b \<in> set (batches_of (fst (snd (flush net bid now ?c1))))"
    by (auto simp: client_log_def Let_def case_prod_beta split: if_splits option.splits)
  then have "logs b \<noteq> [] \<and> (\<exists>n. batchSize (config ?c1) = Some n \<and> int (length (logs b)) \<le> n)"
    using flush_batches [of b net bid now ?c1] by blast
  then show ?thesis by simp
qed

subsection \<open>Claims about delivery\<close>

text \<open>
  C5 (retry and backoff): what \<^verbatim>\<open>sendBatch\<close> does when the fetches of attempts 1 and 2 fail
  and the fetch of attempt 3 succeeds. There are exactly three fetches, with the attempt
  numbers 1, 2, 3, and the call completes without an exception. The waits between them are
  \<^verbatim>\<open>Math.pow(2, attempt) * 1000\<close> milliseconds for the attempts 1 and 2: 2000 ms after the
  first failure and 4000 ms after the second, not the 1 s and 2 s of the claim and of the
  comments \<^verbatim>\<open>1s, 2s, 4s\<close> in the source.
\<close>

theorem C5_retry_backoff:
  assumes "failing (net 1)" and "failing (net 2)" and "\<not> failing (net 3)"
  shows "sendBatch net b 1 = ([Fetch b 1, Sleep 2000, Fetch b 2, Sleep 4000, Fetch b 3], Inr ())
       \<and> attempts_of (fst (sendBatch net b 1)) = [1, 2, 3]
       \<and> delays_of (fst (sendBatch net b 1)) = [2000, 4000]
       \<and> delays_of (fst (sendBatch net b 1)) \<noteq> [1000, 2000]"
  unfolding sendBatch_fail_fail_ok [OF assms] by simp

theorem C5_retry_backoff_witness:
  "failing Rejected \<and> failing (Response 503) \<and> \<not> failing (Response 200)
   \<and> delays_of (fst (sendBatch (\<lambda>a. if a = 1 then Rejected else if a = 2 then Response 503 else Response 200)
        \<lparr>logs = [7::nat], batchId = ''batch_1'', sentAt = ''t''\<rparr> 1)) = [2000, 4000]
   \<and> snd (sendBatch (\<lambda>a. if a = 1 then Rejected else if a = 2 then Response 503 else Response 200)
        \<lparr>logs = [7::nat], batchId = ''batch_1'', sentAt = ''t''\<rparr> 1) = Inr ()"
  using C5_retry_backoff [of "\<lambda>a. if a = 1 then Rejected else if a = 2 then Response 503 else Response 200"
      "\<lparr>logs = [7::nat], batchId = ''batch_1'', sentAt = ''t''\<rparr>"]
  by (simp add: response_ok_def)

text \<open>
  C6 (exhausted retries). When the fetches of the attempts 1, 2 and 3 all fail, by rejecting
  or by a response that is not ok, \<^verbatim>\<open>sendBatch\<close> makes exactly the three fetches and then
  rejects with the error of the third. A \<^verbatim>\<open>flush\<close> of a non-empty queue with a positive batch
  size catches it: the promise of \<^verbatim>\<open>flush\<close> resolves, the last action is the warning, the
  batch holds the dequeued entries, and the queue afterwards is the one the dequeue left, the
  same as under any other network \<open>net'\<close>: nothing is put back.
\<close>

theorem C6_exhausted_retries:
  assumes "failing (net 1)" and "failing (net 2)" and "failing (net 3)"
    and "\<not> isEmpty (logQueue c)" and "batchSize (config c) = Some n" and "0 < n"
  shows "attempts_of (fst (sendBatch net b 1)) = [1, 2, 3]
       \<and> isl (snd (sendBatch net b 1))
       \<and> snd (sendBatch net b 1) = try_fetch (net 3)
       \<and> snd (snd (flush net bid now c)) = Inr ()
       \<and> attempts_of (fst (snd (flush net bid now c))) = [1, 2, 3]
       \<and> set (batches_of (fst (snd (flush net bid now c))))
            = {\<lparr>logs = take (nat n) (queue (logQueue c)), batchId = bid, sentAt = now\<rparr>}
       \<and> (\<exists>e. try_fetch (net 3) = Inl e \<and> last (fst (snd (flush net bid now c))) = Warn e)
       \<and> logQueue (fst (flush net bid now c)) = snd (dequeue (logQueue c) n)
       \<and> queue (logQueue (fst (flush net bid now c))) = drop (nat n) (queue (logQueue c))
       \<and> fst (flush net bid now c) = fst (flush net' bid now c)"
proof -
  let ?b = "\<lparr>logs = take (nat n) (queue (logQueue c)), batchId = bid, sentAt = now\<rparr>"
  note all3 = sendBatch_fail_fail_fail [OF assms(1-3)]
  from assms(3) obtain e where e: "try_fetch (net 3) = Inl e"
    by (auto simp: try_fetch_failing isl_def)
  have send: "attempts_of (fst (sendBatch net b 1)) = [1, 2, 3]
      \<and> isl (snd (sendBatch net b 1)) \<and> snd (sendBatch net b 1) = try_fetch (net 3)"
    unfolding all3 using e by simp
  have fl: "flush net bid now c =
      (c\<lparr>logQueue := (logQueue c)\<lparr>queue := drop (nat n) (queue (logQueue c))\<rparr>\<rparr>,
       [Fetch ?b 1, Sleep 2000, Fetch ?b 2, Sleep 4000, Fetch ?b 3, Warn e], Inr ())"
    unfolding flush_sends [OF assms(4-6)] all3 using e by (simp add: Let_def)
  have q: "logQueue (fst (flush net bid now c)) = snd (dequeue (logQueue c) n)"
    unfolding fl by (simp add: dequeue_def)
  have rest: "snd (snd (flush net bid now c)) = Inr ()
      \<and> attempts_of (fst (snd (flush net bid now c))) = [1, 2, 3]
      \<and> set (batches_of (fst (snd (flush net bid now c)))) = {?b}
      \<and> last (fst (snd (flush net bid now c))) = Warn e
      \<and> queue (logQueue (fst (flush net bid now c))) = drop (nat n) (queue (logQueue c))"
    unfolding fl by simp
  from send rest q e flush_client_independent [of net bid now c net'] show ?thesis
    by blast
qed

theorem C6_exhausted_retries_witness:
  "failing (Response 500)
   \<and> \<not> isEmpty (logQueue \<lparr>config = (getConfig_defaults ''key'' ''url'')\<lparr>batchSize := Some 2\<rparr>,
          logQueue = \<lparr>queue = [4, 5, 6::nat], maxSize = 1000\<rparr>, flushTimer = None\<rparr>)
   \<and> snd (snd (flush (\<lambda>a. Response 500) ''batch_1'' ''t''
        \<lparr>config = (getConfig_defaults ''key'' ''url'')\<lparr>batchSize := Some 2\<rparr>,
          logQueue = \<lparr>queue = [4, 5, 6::nat], maxSize = 1000\<rparr>, flushTimer = None\<rparr>)) = Inr ()
   \<and> attempts_of (fst (snd (flush (\<lambda>a. Response 500) ''batch_1'' ''t''
        \<lparr>config = (getConfig_defaults ''key'' ''url'')\<lparr>batchSize := Some 2\<rparr>,
          logQueue = \<lparr>queue = [4, 5, 6::nat], maxSize = 1000\<rparr>, flushTimer = None\<rparr>))) = [1, 2, 3]
   \<and> queue (logQueue (fst (flush (\<lambda>a. Response 500) ''batch_1'' ''t''
        \<lparr>config = (getConfig_defaults ''key'' ''url'')\<lparr>batchSize := Some 2\<rparr>,
          logQueue = \<lparr>queue = [4, 5, 6::nat], maxSize = 1000\<rparr>, flushTimer = None\<rparr>))) = [6]"
proof -
  let ?c = "\<lparr>config = (getConfig_defaults ''key'' ''url'')\<lparr>batchSize := Some 2\<rparr>,
      logQueue = \<lparr>queue = [4, 5, 6::nat], maxSize = 1000\<rparr>, flushTimer = None\<rparr>"
  let ?net = "\<lambda>a::nat. Response 500"
  have f: "failing (Response 500)"
    by (simp add: response_ok_def)
  have ne: "\<not> isEmpty (logQueue ?c)"
    by (simp add: isEmpty_def)
  have bs: "batchSize (config ?c) = Some 2"
    by (simp add: getConfig_defaults_def)
  have pos: "(0::int) < 2"
    by simp
  note t = C6_exhausted_retries [of ?net ?c 2 "\<lparr>logs = [4::nat], batchId = ''b'', sentAt = ''t''\<rparr>"
      "''batch_1''" "''t''" ?net, OF f f f ne bs pos]
  from t have r: "snd (snd (flush ?net ''batch_1'' ''t'' ?c)) = Inr ()"
    by blast
  from t have a: "attempts_of (fst (snd (flush ?net ''batch_1'' ''t'' ?c))) = [1, 2, 3]"
    by blast
  from t have "queue (logQueue (fst (flush ?net ''batch_1'' ''t'' ?c))) = drop (nat 2) (queue (logQueue ?c))"
    by blast
  then have q: "queue (logQueue (fst (flush ?net ''batch_1'' ''t'' ?c))) = [6]"
    by simp
  from f ne r a q show ?thesis
    by blast
qed

text \<open>
  C8 (empty flush, non-empty batches). A \<^verbatim>\<open>flush\<close> of an empty queue leaves the client as it
  is and performs no action: no batch, no fetch. Every batch fetched by a \<^verbatim>\<open>flush\<close>, by the
  flush that \<^verbatim>\<open>log\<close> starts, or by the final flush of \<^verbatim>\<open>resetClient\<close> (through \<^verbatim>\<open>destroy\<close>)
  holds at least one entry and at most \<^verbatim>\<open>batchSize\<close> entries; \<^verbatim>\<open>flush\<close> is the only place
  where a batch is built.
\<close>

theorem C8_batches_nonempty:
  "(isEmpty (logQueue c) \<longrightarrow> flush net bid now c = (c, [], Inr ()))
   \<and> (\<forall>b \<in> set (batches_of (fst (snd (flush net bid now c)))).
        1 \<le> length (logs b) \<and> (\<exists>n. batchSize (config c) = Some n \<and> int (length (logs b)) \<le> n))
   \<and> (\<forall>b \<in> set (batches_of (snd (client_log net bid now c payload draw))).
        1 \<le> length (logs b) \<and> (\<exists>n. batchSize (config c) = Some n \<and> int (length (logs b)) \<le> n))
   \<and> (\<forall>b \<in> set (batches_of (fst (resetClient net bid now (Some c)))).
        1 \<le> length (logs b) \<and> (\<exists>n. batchSize (config c) = Some n \<and> int (length (logs b)) \<le> n))"
proof -
  have ne: "1 \<le> length xs \<longleftrightarrow> xs \<noteq> []" for xs :: "'a list"
    by (cases xs) simp_all
  have empty: "isEmpty (logQueue c) \<longrightarrow> flush net bid now c = (c, [], Inr ())"
    by (simp add: flush_def)
  have fl: "\<forall>b \<in> set (batches_of (fst (snd (flush net bid now c)))).
      1 \<le> length (logs b) \<and> (\<exists>n. batchSize (config c) = Some n \<and> int (length (logs b)) \<le> n)"
    using flush_batches [of _ net bid now c] unfolding ne by blast
  have lg: "\<forall>b \<in> set (batches_of (snd (client_log net bid now c payload draw))).
      1 \<le> length (logs b) \<and> (\<exists>n. batchSize (config c) = Some n \<and> int (length (logs b)) \<le> n)"
    using client_log_batches [of _ net bid now c payload draw] unfolding ne by blast
  have "fst (resetClient net bid now (Some c)) = fst (snd (flush net bid now c))"
    by (simp add: resetClient_def destroy_def case_prod_beta)
  with fl have rs: "\<forall>b \<in> set (batches_of (fst (resetClient net bid now (Some c)))).
      1 \<le> length (logs b) \<and> (\<exists>n. batchSize (config c) = Some n \<and> int (length (logs b)) \<le> n)"
    by simp
  from empty fl lg rs show ?thesis by blast
qed

theorem C8_batches_nonempty_witness:
  "isEmpty (logQueue \<lparr>config = getConfig_defaults ''key'' ''url'',
          logQueue = \<lparr>queue = [] :: nat list, maxSize = 1000\<rparr>, flushTimer = None\<rparr>)
   \<and> fst (snd (flush (\<lambda>a. Response 200) ''batch_1'' ''t''
        \<lparr>config = getConfig_defaults ''key'' ''url'',
          logQueue = \<lparr>queue = [] :: nat list, maxSize = 1000\<rparr>, flushTimer = None\<rparr>)) = []
   \<and> batches_of (fst (snd (flush (\<lambda>a. Response 200) ''batch_1'' ''t''
        \<lparr>config = (getConfig_defaults ''key'' ''url'')\<lparr>batchSize := Some 2\<rparr>,
          logQueue = \<lparr>queue = [4, 5, 6::nat], maxSize = 1000\<rparr>, flushTimer = None\<rparr>)))
       = [\<lparr>logs = [4, 5], batchId = ''batch_1'', sentAt = ''t''\<rparr>]
   \<and> 1 \<le> length (logs \<lparr>logs = [4, 5::nat], batchId = ''batch_1'', sentAt = ''t''\<rparr>)
   \<and> (\<exists>n. batchSize (config \<lparr>config = (getConfig_defaults ''key'' ''url'')\<lparr>batchSize := Some 2\<rparr>,
          logQueue = \<lparr>queue = [4, 5, 6::nat], maxSize = 1000\<rparr>, flushTimer = None\<rparr>) = Some n
        \<and> int (length (logs \<lparr>logs = [4, 5::nat], batchId = ''batch_1'', sentAt = ''t''\<rparr>)) \<le> n)"
proof -
  let ?ce = "\<lparr>config = getConfig_defaults ''key'' ''url'',
      logQueue = \<lparr>queue = [] :: nat list, maxSize = 1000\<rparr>, flushTimer = None\<rparr>"
  let ?c = "\<lparr>config = (getConfig_defaults ''key'' ''url'')\<lparr>batchSize := Some 2\<rparr>,
      logQueue = \<lparr>queue = [4, 5, 6::nat], maxSize = 1000\<rparr>, flushTimer = None\<rparr>"
  let ?net = "\<lambda>a::nat. Response 200"
  let ?b = "\<lparr>logs = [4, 5::nat], batchId = ''batch_1'', sentAt = ''t''\<rparr>"
  have e: "isEmpty (logQueue ?ce)"
    by (simp add: isEmpty_def)
  with C8_batches_nonempty [of ?ce ?net "''batch_1''" "''t''" 0 0]
  have "flush ?net ''batch_1'' ''t'' ?ce = (?ce, [], Inr ())"
    by blast
  then have none: "fst (snd (flush ?net ''batch_1'' ''t'' ?ce)) = []"
    by simp
  have ok: "\<not> failing (?net 1)"
    by (simp add: response_ok_def)
  have sent: "batches_of (fst (snd (flush ?net ''batch_1'' ''t'' ?c))) = [?b]"
    by (simp add: flush_def isEmpty_def dequeue_def deleteCount_def getConfig_defaults_def
        sendBatch_success [OF ok])
  then have "?b \<in> set (batches_of (fst (snd (flush ?net ''batch_1'' ''t'' ?c))))"
    by simp
  with C8_batches_nonempty [of ?c ?net "''batch_1''" "''t''" 0 0]
  have "1 \<le> length (logs ?b)
      \<and> (\<exists>n. batchSize (config ?c) = Some n \<and> int (length (logs ?b)) \<le> n)"
    by blast
  with e none sent show ?thesis
    by blast
qed

text \<open>
  C10 (the singleton keeps its first configuration). The first \<^verbatim>\<open>getClient(c1)\<close> builds the
  instance from \<open>c1\<close>. After any sequence of further calls of \<^verbatim>\<open>getClient\<close> (with any configs),
  of \<^verbatim>\<open>log\<close> and of \<^verbatim>\<open>flush\<close>, the variable still holds an instance whose configuration is
  \<open>c1\<close> and whose queue has the capacity that \<open>c1\<close> gave it, and \<^verbatim>\<open>getClient(c2)\<close> returns that
  instance and leaves the variable as it is, whatever \<open>c2\<close> is. \<^verbatim>\<open>resetClient\<close> sets the
  variable to null, and the \<^verbatim>\<open>getClient(c2)\<close> after it builds a new instance from \<open>c2\<close>.
\<close>

theorem C10_singleton_config:
  fixes c1 c2 :: LogSentinelConfig and calls :: "'a call list"
  defines "st \<equiv> after_calls (snd (getClient c1 None)) calls"
  shows "getClient c1 None
           = (new_LogSentinelClient c1 :: 'a LogSentinelClient, Some (new_LogSentinelClient c1))
       \<and> config (new_LogSentinelClient c1 :: 'a LogSentinelClient) = c1
       \<and> (\<exists>inst. st = Some inst \<and> config inst = c1
             \<and> maxSize (logQueue inst) = maxSize (new_LogQueue (maxQueueSize c1) :: 'a LogQueue)
             \<and> getClient c2 st = (inst, st))
       \<and> (\<forall>inst :: 'a LogSentinelClient. getClient c2 (Some inst) = (inst, Some inst))
       \<and> snd (resetClient net bid now st) = None
       \<and> getClient c2 (snd (resetClient net bid now st))
           = (new_LogSentinelClient c2, Some (new_LogSentinelClient c2))
       \<and> config (fst (getClient c2 (snd (resetClient net bid now st)))) = c2"
proof -
  have first: "getClient c1 None = (new_LogSentinelClient c1 :: 'a LogSentinelClient, Some (new_LogSentinelClient c1))"
    by (simp add: getClient_def Let_def)
  have cfg: "config (new_LogSentinelClient c :: 'a LogSentinelClient) = c" for c
    by (simp add: new_LogSentinelClient_def)
  have cap: "maxSize (logQueue (new_LogSentinelClient c1 :: 'a LogSentinelClient))
      = maxSize (new_LogQueue (maxQueueSize c1) :: 'a LogQueue)"
    by (simp add: new_LogSentinelClient_def)
  have existing: "getClient c2 (Some inst) = (inst, Some inst)" for inst :: "'a LogSentinelClient"
    by (simp add: getClient_def)
  have step: "\<exists>inst'. after_call (Some inst) k = Some inst' \<and> config inst' = config inst
      \<and> maxSize (logQueue inst') = maxSize (logQueue inst)"
    for inst :: "'a LogSentinelClient" and k
    by (cases k)
      (simp_all add: getClient_def Let_def client_log_config flush_config client_log_maxSize
        flush_maxSize)
  have run: "\<exists>inst'. after_calls (Some inst) ks = Some inst' \<and> config inst' = config inst
      \<and> maxSize (logQueue inst') = maxSize (logQueue inst)"
    for inst :: "'a LogSentinelClient" and ks
  proof (induction ks arbitrary: inst)
    case Nil
    show ?case by (simp add: after_calls_def)
  next
    case (Cons k ks)
    from step [of inst k] obtain i1 where i1: "after_call (Some inst) k = Some i1"
      "config i1 = config inst" "maxSize (logQueue i1) = maxSize (logQueue inst)"
      by blast
    from Cons [of i1] obtain i2 where "after_calls (Some i1) ks = Some i2"
      "config i2 = config i1" "maxSize (logQueue i2) = maxSize (logQueue i1)"
      by blast
    with i1 show ?case by (simp add: after_calls_def)
  qed
  from run [of "new_LogSentinelClient c1" calls] obtain inst
    where inst: "st = Some inst" "config inst = c1"
      "maxSize (logQueue inst) = maxSize (new_LogQueue (maxQueueSize c1) :: 'a LogQueue)"
    unfolding st_def first by (auto simp: cfg cap)
  have reset: "snd (resetClient net bid now st) = None"
    by (simp add: resetClient_def case_prod_beta split: option.splits)
  have again: "getClient c2 (snd (resetClient net bid now st))
      = (new_LogSentinelClient c2, Some (new_LogSentinelClient c2))"
    unfolding reset by (simp add: getClient_def Let_def)
  from first cfg [of c1] inst existing [of inst] existing reset again cfg [of c2]
  show ?thesis
    by (auto simp del: split_paired_All split_paired_Ex)
qed

section \<open>Properties of the sanitizer\<close>

subsection \<open>Facts about the redaction\<close>

lemma redact_scalar: "\<not> is_object v \<Longrightarrow> redactSensitiveFields v = v"
  by (cases v) simp_all

lemma update_fresh: "k \<notin> fst ` set al \<Longrightarrow> AList.update k v al = al @ [(k, v)]"
  by (induction al) auto

lemma loop_body:
  "(\<lambda>sanitized (key, val).
       if is_sensitive key then assign sanitized key REDACTED
       else if is_object val then assign sanitized key (redactSensitiveFields val)
       else assign sanitized key val)
   = (\<lambda>sanitized (key, val). assign sanitized key (redact_entry key val))"
  by (auto simp: fun_eq_iff redact_entry_def redact_scalar)

lemma redact_JObj_assign:
  "redactSensitiveFields (JObj entries) =
     JObj (foldl (\<lambda>sanitized (key, val). assign sanitized key (redact_entry key val)) [] entries)"
  by (simp add: loop_body)

lemma loop_distinct:
  assumes "distinct (map fst acc @ map fst es)"
  shows "foldl (\<lambda>sanitized (key, val). assign sanitized key (redact_entry key val)) acc es
     = acc @ map (\<lambda>(k, v). (k, redact_entry k v)) (filter (\<lambda>(k, v). k \<noteq> ''__proto__'') es)"
  using assms
proof (induction es arbitrary: acc)
  case Nil
  show ?case by simp
next
  case (Cons e es)
  obtain k v where e: "e = (k, v)" by (cases e)
  show ?case
  proof (cases "k = ''__proto__''")
    case True
    from Cons.prems have "distinct (map fst acc @ map fst es)" by (simp add: e)
    from Cons.IH [OF this] show ?thesis by (simp add: e True assign_def)
  next
    case False
    from Cons.prems have fresh: "k \<notin> fst ` set acc" by (auto simp: e)
    from Cons.prems have "distinct (map fst (acc @ [(k, redact_entry k v)]) @ map fst es)"
      by (auto simp: e)
    from Cons.IH [OF this] show ?thesis
      by (simp add: e False assign_def update_fresh [OF fresh])
  qed
qed

lemma redact_JObj:
  assumes "distinct (map fst entries)"
  shows "redactSensitiveFields (JObj entries) =
     JObj (map (\<lambda>(k, v). (k, redact_entry k v)) (filter (\<lambda>(k, v). k \<noteq> ''__proto__'') entries))"
  unfolding redact_JObj_assign using loop_distinct [of "[]" entries] assms by simp

lemma set_update: "set (AList.update k v al) \<subseteq> insert (k, v) (set al)"
  by (induction al) auto

lemma loop_entries:
  "set (foldl (\<lambda>sanitized (key, val). assign sanitized key (redact_entry key val)) acc es)
     \<subseteq> set acc \<union> (\<lambda>(k, v). (k, redact_entry k v)) ` set es"
proof (induction es arbitrary: acc)
  case Nil
  show ?case by simp
next
  case (Cons e es)
  obtain k v where e: "e = (k, v)" by (cases e)
  have "set (assign acc k (redact_entry k v)) \<subseteq> insert (k, redact_entry k v) (set acc)"
    using set_update [of k "redact_entry k v" acc] by (auto simp: assign_def)
  with Cons [of "assign acc k (redact_entry k v)"] show ?case
    by (auto simp: e)
qed

lemma all_redacted_redact: "all_redacted (redactSensitiveFields v)"
proof (induction v rule: redactSensitiveFields.induct)
  case (5 items)
  then show ?case by (simp add: list_all_iff)
next
  case (6 entries)
  have "(if is_sensitive k then w = REDACTED else all_redacted w)"
    if "(k, w) \<in> set (foldl (\<lambda>sanitized (key, val). assign sanitized key (redact_entry key val)) [] entries)"
    for k w
  proof -
    from that loop_entries [of "[]" entries] obtain v where v: "(k, v) \<in> set entries" "w = redact_entry k v"
      by auto
    show ?thesis
    proof (cases "is_sensitive k")
      case True
      then show ?thesis by (simp add: v redact_entry_def)
    next
      case False
      show ?thesis
      proof (cases "is_object v")
        case True
        from "6" [OF v(1) refl False True] False show ?thesis by (simp add: v redact_entry_def)
      next
        case obj: False
        then show ?thesis using False by (cases v) (simp_all add: v redact_entry_def)
      qed
    qed
  qed
  then show ?case unfolding redact_JObj_assign by (auto simp: list_all_iff)
qed simp_all

lemma map_of_redacted:
  assumes "k \<noteq> ''__proto__''"
  shows "map_of (map (\<lambda>(k, v). (k, redact_entry k v)) (filter (\<lambda>(k, v). k \<noteq> ''__proto__'') es)) k
     = map_option (redact_entry k) (map_of es k)"
  using assms by (induction es) auto

lemma get_step_distinct:
  assumes "distinct_keys v" and "get_step v s = Some w"
  shows "distinct_keys w"
proof (cases v)
  case (JArr items)
  with assms show ?thesis
    by (cases s) (auto simp: list_all_iff split: if_splits)
next
  case (JObj entries)
  with assms show ?thesis
    by (cases s) (auto simp: list_all_iff dest: map_of_SomeD)
qed (use assms in auto)

lemma get_step_redact_key:
  assumes "distinct_keys v" and "k \<noteq> ''__proto__''"
  shows "get_step (redactSensitiveFields v) (Key k) = map_option (redact_entry k) (get_step v (Key k))"
proof (cases v)
  case (JObj entries)
  with assms(1) have "distinct (map fst entries)" by simp
  then show ?thesis by (simp add: JObj redact_JObj map_of_redacted [OF assms(2)] del: redactSensitiveFields.simps)
qed simp_all

lemma get_step_redact:
  assumes "distinct_keys v" and "open_step s"
  shows "get_step (redactSensitiveFields v) s = map_option redactSensitiveFields (get_step v s)"
proof (cases s)
  case (Key k)
  with assms(2) have "redact_entry k = redactSensitiveFields" and "k \<noteq> ''__proto__''"
    by (auto simp: redact_entry_def fun_eq_iff)
  with get_step_redact_key [OF assms(1), of k] show ?thesis by (simp add: Key)
next
  case (Index i)
  show ?thesis by (cases v) (simp_all add: Index)
qed

lemma get_path_append:
  "get_path v (p @ q) = (case get_path v p of None \<Rightarrow> None | Some w \<Rightarrow> get_path w q)"
  by (induction p arbitrary: v) (auto split: option.splits)

lemma get_path_distinct:
  assumes "distinct_keys v" and "get_path v p = Some w"
  shows "distinct_keys w"
  using assms
  by (induction p arbitrary: v) (auto split: option.splits dest: get_step_distinct)

lemma get_path_redact:
  assumes "distinct_keys v" and "list_all open_step p"
  shows "get_path (redactSensitiveFields v) p = map_option redactSensitiveFields (get_path v p)"
  using assms
proof (induction p arbitrary: v)
  case Nil
  show ?case by simp
next
  case (Cons s p)
  then have s: "open_step s" and p: "list_all open_step p" by simp_all
  note st = get_step_redact [OF Cons.prems(1) s]
  show ?case
  proof (cases "get_step v s")
    case None
    with st show ?thesis by simp
  next
    case (Some w)
    from get_step_distinct [OF Cons.prems(1) Some] have "distinct_keys w" .
    from Cons.IH [OF this p] st Some show ?thesis by simp
  qed
qed

lemma not_sensitive_proto: "\<not> is_sensitive ''__proto__''"
  by code_simp

lemma get_path_sensitive:
  assumes "distinct_keys v" and "list_all open_step p" and "is_sensitive k"
    and "get_path v (p @ [Key k]) = Some x"
  shows "get_path (redactSensitiveFields v) (p @ [Key k]) = Some REDACTED"
proof -
  from assms(4) obtain w where w: "get_path v p = Some w" and x: "get_step w (Key k) = Some x"
    by (auto simp: get_path_append split: option.splits)
  from get_path_distinct [OF assms(1) w] have dw: "distinct_keys w" .
  from assms(3) not_sensitive_proto have "k \<noteq> ''__proto__''" by auto
  from get_step_redact_key [OF dw this] x assms(3)
  have "get_step (redactSensitiveFields w) (Key k) = Some REDACTED"
    by (simp add: redact_entry_def)
  with get_path_redact [OF assms(1,2)] w show ?thesis
    by (simp add: get_path_append)
qed

lemma password_sensitive:
  assumes "toLowerCase k = ''password''"
  shows "is_sensitive k"
  unfolding is_sensitive_def Let_def assms
  by (simp add: sensitiveFields_def str_includes_def)



lemma calls_pos: "0 < calls v"
  by (cases v) simp_all

lemma foldr_max_le: "foldr max ns 0 \<le> (d::nat) \<longleftrightarrow> (\<forall>n \<in> set ns. n \<le> d)"
  by (induction ns) auto

lemma those_map_if:
  "those (map (\<lambda>x. if P x then Some (f x) else None) xs)
     = (if \<forall>x \<in> set xs. P x then Some (map f xs) else None)"
  by (induction xs) auto

lemma foldl_guarded:
  assumes "\<And>acc x. g (Some acc) x = (if P x then Some (f acc x) else None)"
    and "\<And>x. g None x = None"
  shows "foldl g (Some acc) xs = (if \<forall>x \<in> set xs. P x then Some (foldl f acc xs) else None)"
proof -
  have none: "foldl g None ys = None" for ys
    by (induction ys) (simp_all add: assms(2))
  show ?thesis
    by (induction xs arbitrary: acc) (simp_all add: assms(1) none)
qed

lemma on_stack_eq:
  "redactSensitiveFields_on_stack d v
     = (if calls v \<le> d then Some (redactSensitiveFields v) else None)"
proof (induction d arbitrary: v)
  case 0
  from calls_pos [of v] show ?case by simp
next
  case (Suc d)
  show ?case
  proof (cases v)
    case (JArr items)
    have "those (map (\<lambda>item. redactSensitiveFields_on_stack d item) items)
        = (if \<forall>x \<in> set items. calls x \<le> d then Some (map redactSensitiveFields items) else None)"
      unfolding Suc by (rule those_map_if)
    then show ?thesis by (simp add: JArr foldr_max_le)
  next
    case (JObj entries)
    let ?g = "\<lambda>state (key, val).
            case state of
              None \<Rightarrow> None
            | Some sanitized \<Rightarrow>
                if is_sensitive key then Some (assign sanitized key REDACTED)
                else if is_object val
                  then map_option (\<lambda>r. assign sanitized key r) (redactSensitiveFields_on_stack d val)
                  else Some (assign sanitized key val)"
    let ?P = "\<lambda>x. (case x of (key, val) \<Rightarrow>
        if \<not> is_sensitive key \<and> is_object val then calls val else 0) \<le> d"
    let ?f = "\<lambda>sanitized (key, val). assign sanitized key (redact_entry key val)"
    have g: "?g (Some acc) x = (if ?P x then Some (?f acc x) else None)" for acc x
      by (cases x) (simp add: Suc redact_entry_def redact_scalar)
    have gn: "?g None x = None" for x
      by (cases x) simp
    have "foldl ?g (Some []) entries
        = (if \<forall>x \<in> set entries. ?P x then Some (foldl ?f [] entries) else None)"
      using g gn by (rule foldl_guarded)
    then show ?thesis
      by (simp add: JObj foldr_max_le redact_JObj_assign del: redactSensitiveFields.simps)
  qed simp_all
qed

lemma sanitizeBody_undefined: "sanitizeBody rt None = Inr None"
  by (simp add: sanitizeBody_def)

lemma sanitizeBody_falsy: "falsy b \<Longrightarrow> sanitizeBody rt (Some b) = Inr None"
  by (simp add: sanitizeBody_def)

lemma sanitizeBody_truthy:
  "\<not> falsy b \<Longrightarrow> sanitizeBody rt (Some b)
     = (case try_block rt b of Some result \<Rightarrow> Inr (Some result) | None \<Rightarrow> catch_block rt b)"
  by (simp add: sanitizeBody_def)

lemma catch_block_defined: "catch_block rt b \<noteq> Inr None"
  by (simp add: catch_block_def split: option.splits)

lemma catch_block_string: "catch_block rt (JStr s) = Inr (Some (JStr (cut500 s)))"
  by (simp add: catch_block_def)


lemma try_block_value:
  assumes "\<forall>s. b \<noteq> JStr s" and "jsonString_of rt b = Some js" and "length js \<le> 10000"
  shows "try_block rt b =
    (if is_object b then (if calls b \<le> stack rt then Some (redactSensitiveFields b) else None)
     else Some b)"
  using assms by (cases b) (simp_all add: try_block_def on_stack_eq)

lemma try_block_string:
  assumes "length s \<le> 10000"
  shows "try_block rt (JStr s) =
    (case JSON_parse rt s of
       None \<Rightarrow> None
     | Some parsed \<Rightarrow>
         if is_object parsed
         then (if calls parsed \<le> stack rt then Some (redactSensitiveFields parsed) else None)
         else Some parsed)"
  using assms by (simp add: try_block_def jsonString_of_def on_stack_eq split: option.splits)


lemma sanitizeBody_None_iff:
  "sanitizeBody rt body = Inr None \<longleftrightarrow> (body = None \<or> (\<exists>b. body = Some b \<and> falsy b))"
proof (cases body)
  case None
  then show ?thesis by (simp add: sanitizeBody_def)
next
  case (Some b)
  show ?thesis
  proof (cases "falsy b")
    case True
    then show ?thesis by (simp add: Some sanitizeBody_def)
  next
    case False
    then show ?thesis
      using catch_block_defined [of rt b]
      by (simp add: Some sanitizeBody_def split: option.splits)
  qed
qed

lemma falsy_iff: "falsy b \<longleftrightarrow> b = JNull \<or> b = JBool False \<or> b = JNum 0 \<or> b = JStr []"
  by (cases b) auto

lemma toLowerCase_char_not_capital:
  "\<not> (65 \<le> (of_char (toLowerCase_char c) :: nat) \<and> (of_char (toLowerCase_char c) :: nat) \<le> 90)"
proof -
  let ?n = "of_char c :: nat"
  have "?n < 256" by simp
  show ?thesis
  proof (cases "(65 \<le> ?n \<and> ?n \<le> 90) \<or> (192 \<le> ?n \<and> ?n \<le> 222 \<and> ?n \<noteq> 215)")
    case True
    then have "toLowerCase_char c = char_of (?n + 32)"
      unfolding toLowerCase_char_def Let_def by (simp only: if_True)
    moreover from True have "(?n + 32) mod 256 = ?n + 32" by auto
    ultimately have "(of_char (toLowerCase_char c) :: nat) = ?n + 32" by simp
    with True show ?thesis by auto
  next
    case False
    then have "toLowerCase_char c = c"
      unfolding toLowerCase_char_def Let_def by (simp only: if_False)
    with False show ?thesis by auto
  qed
qed

lemma capital_not_in_toLowerCase:
  assumes "65 \<le> (of_char x :: nat)" and "(of_char x :: nat) \<le> 90"
  shows "x \<notin> set (toLowerCase key)"
proof
  assume "x \<in> set (toLowerCase key)"
  then obtain c where "x = toLowerCase_char c" by (auto simp: toLowerCase_def)
  with assms toLowerCase_char_not_capital [of c] show False by simp
qed

lemma camelCase_never_included:
  "\<not> str_includes (toLowerCase key) ''apiKey''
   \<and> \<not> str_includes (toLowerCase key) ''creditCard''
   \<and> \<not> str_includes (toLowerCase key) ''privateKey''"
proof -
  have K: "CHR ''K'' \<notin> set (toLowerCase key)" and C: "CHR ''C'' \<notin> set (toLowerCase key)"
    by (rule capital_not_in_toLowerCase; simp)+
  have "\<not> sublist ''apiKey'' (toLowerCase key)"
    using K set_mono_sublist [of "''apiKey''" "toLowerCase key"] by auto
  moreover have "\<not> sublist ''creditCard'' (toLowerCase key)"
    using C set_mono_sublist [of "''creditCard''" "toLowerCase key"] by auto
  moreover have "\<not> sublist ''privateKey'' (toLowerCase key)"
    using K set_mono_sublist [of "''privateKey''" "toLowerCase key"] by auto
  ultimately show ?thesis by (simp add: str_includes_def)
qed

text \<open>
  The walk of \<^verbatim>\<open>redactSensitiveFields\<close> when it returns. In the result every sensitive key, at
  every depth, carries the marker. For a body with distinct keys and a path \<open>p\<close> of array
  indices and of keys that are neither sensitive nor \<^verbatim>\<open>__proto__\<close>: a sensitive key found at
  \<open>p\<close> has the marker at the same place of the result; an array found at \<open>p\<close> becomes the array
  of the redacted elements, in the same order and of the same length; an object found at
  \<open>p\<close> becomes the object of its redacted entries, in the same order, without an entry whose
  key is \<^verbatim>\<open>__proto__\<close>.
\<close>

lemma redaction_walk:
  "all_redacted (redactSensitiveFields body)
   \<and> (distinct_keys body \<and> list_all open_step p \<and> is_sensitive k
        \<and> get_path body (p @ [Key k]) = Some x
      \<longrightarrow> get_path (redactSensitiveFields body) (p @ [Key k]) = Some REDACTED)
   \<and> (distinct_keys body \<and> list_all open_step p \<and> get_path body p = Some (JArr items)
      \<longrightarrow> get_path (redactSensitiveFields body) p = Some (JArr (map redactSensitiveFields items))
        \<and> length (map redactSensitiveFields items) = length items)
   \<and> (distinct_keys body \<and> list_all open_step p \<and> get_path body p = Some (JObj entries)
      \<longrightarrow> get_path (redactSensitiveFields body) p
          = Some (JObj (map (\<lambda>(k, v). (k, redact_entry k v))
                         (filter (\<lambda>(k, v). k \<noteq> ''__proto__'') entries))))"
proof -
  have key: "distinct_keys body \<and> list_all open_step p \<and> is_sensitive k
        \<and> get_path body (p @ [Key k]) = Some x
      \<longrightarrow> get_path (redactSensitiveFields body) (p @ [Key k]) = Some REDACTED"
    using get_path_sensitive [of body p k x] by blast
  have arr: "distinct_keys body \<and> list_all open_step p \<and> get_path body p = Some (JArr items)
      \<longrightarrow> get_path (redactSensitiveFields body) p = Some (JArr (map redactSensitiveFields items))
        \<and> length (map redactSensitiveFields items) = length items"
    using get_path_redact [of body p] by simp
  have obj: "distinct_keys body \<and> list_all open_step p \<and> get_path body p = Some (JObj entries)
      \<longrightarrow> get_path (redactSensitiveFields body) p
          = Some (JObj (map (\<lambda>(k, v). (k, redact_entry k v))
                         (filter (\<lambda>(k, v). k \<noteq> ''__proto__'') entries)))"
  proof
    assume h: "distinct_keys body \<and> list_all open_step p \<and> get_path body p = Some (JObj entries)"
    then have "distinct_keys (JObj entries)"
      using get_path_distinct [of body p "JObj entries"] by blast
    then have "distinct (map fst entries)" by simp
    from redact_JObj [OF this] get_path_redact [of body p] h
    show "get_path (redactSensitiveFields body) p
          = Some (JObj (map (\<lambda>(k, v). (k, redact_entry k v))
                         (filter (\<lambda>(k, v). k \<noteq> ''__proto__'') entries)))"
      by simp
  qed
  from all_redacted_redact [of body] key arr obj show ?thesis
    by blast
qed

subsection \<open>Claims about the sanitizer\<close>

text \<open>
  C3 (body redaction matching): the keys \<^verbatim>\<open>apiKey\<close>, \<^verbatim>\<open>creditCard\<close> and \<^verbatim>\<open>privateKey\<close>. The
  list names them as sensitive fields, but the loop compares each list entry with the
  lower-cased key, and a lower-cased key holds no capital letter: for every key, the
  entries \<^verbatim>\<open>apiKey\<close>, \<^verbatim>\<open>creditCard\<close> and \<^verbatim>\<open>privateKey\<close> are not included in its lowercase
  form. No other entry occurs in \<^verbatim>\<open>apikey\<close>, \<^verbatim>\<open>creditcard\<close> or \<^verbatim>\<open>privatekey\<close>, so these three
  keys are not sensitive for the code and their values are not replaced. On the body of the
  repository's test \<^verbatim>\<open>should handle nested objects\<close>, which expects the marker under
  \<^verbatim>\<open>apiKey\<close>, \<^verbatim>\<open>sanitizeBody\<close> returns the value \<^verbatim>\<open>key123\<close> under \<^verbatim>\<open>apiKey\<close>.
\<close>

theorem C3_camelCase_fields_unredacted:
  "\<not> str_includes (toLowerCase key) ''apiKey''
   \<and> \<not> str_includes (toLowerCase key) ''creditCard''
   \<and> \<not> str_includes (toLowerCase key) ''privateKey''
   \<and> \<not> is_sensitive ''apiKey'' \<and> \<not> is_sensitive ''creditCard'' \<and> \<not> is_sensitive ''privateKey''
   \<and> redactSensitiveFields (JObj [(''apiKey'', JStr ''key123'')]) = JObj [(''apiKey'', JStr ''key123'')]
   \<and> sanitizeBody
        \<lparr>JSON_parse = \<lambda>s. None,
         JSON_stringify = \<lambda>v. Some ''{\"user\":{\"name\":\"john\",\"credentials\":{\"password\":\"secret\",\"apiKey\":\"key123\"}}}'',
         String_of = \<lambda>v. Some ''[object Object]'', stack = 1000\<rparr>
        (Some (JObj [(''user'', JObj [(''name'', JStr ''john''),
           (''credentials'', JObj [(''password'', JStr ''secret''), (''apiKey'', JStr ''key123'')])])]))
      = Inr (Some (JObj [(''user'', JObj [(''name'', JStr ''john''),
           (''credentials'', JObj [(''password'', JStr ''[REDACTED]''), (''apiKey'', JStr ''key123'')])])]))"
proof -
  have keys: "\<not> is_sensitive ''apiKey'' \<and> \<not> is_sensitive ''creditCard'' \<and> \<not> is_sensitive ''privateKey''"
    by code_simp
  have one: "redactSensitiveFields (JObj [(''apiKey'', JStr ''key123'')]) = JObj [(''apiKey'', JStr ''key123'')]"
    by code_simp
  have test: "sanitizeBody
        \<lparr>JSON_parse = \<lambda>s. None,
         JSON_stringify = \<lambda>v. Some ''{\"user\":{\"name\":\"john\",\"credentials\":{\"password\":\"secret\",\"apiKey\":\"key123\"}}}'',
         String_of = \<lambda>v. Some ''[object Object]'', stack = 1000\<rparr>
        (Some (JObj [(''user'', JObj [(''name'', JStr ''john''),
           (''credentials'', JObj [(''password'', JStr ''secret''), (''apiKey'', JStr ''key123'')])])]))
      = Inr (Some (JObj [(''user'', JObj [(''name'', JStr ''john''),
           (''credentials'', JObj [(''password'', JStr ''[REDACTED]''), (''apiKey'', JStr ''key123'')])])]))"
    by code_simp
  from camelCase_never_included [of key] keys one test show ?thesis
    by blast
qed




text \<open>
  C7 (boundary behaviour), as stated: no input other than \<^verbatim>\<open>undefined\<close> and \<^verbatim>\<open>null\<close> yields
  \<^verbatim>\<open>undefined\<close>, and scalars pass through unchanged. It fails for the body \<^verbatim>\<open>false\<close>, which
  yields \<^verbatim>\<open>undefined\<close> through the test \<^verbatim>\<open>!body\<close>, and for the string \<^verbatim>\<open>123\<close>, which is
  valid JSON and comes back as the number 123.
\<close>

theorem C7_boundary_counterexample:
  "sanitizeBody \<lparr>JSON_parse = \<lambda>s. None, JSON_stringify = \<lambda>v. Some ''false'',
        String_of = \<lambda>v. Some ''false'', stack = 1000\<rparr> (Some (JBool False)) = Inr None
   \<and> JBool False \<noteq> JNull
   \<and> sanitizeBody \<lparr>JSON_parse = \<lambda>s. if s = ''123'' then Some (JNum 123) else None,
        JSON_stringify = \<lambda>v. None, String_of = \<lambda>v. None, stack = 1000\<rparr>
        (Some (JStr ''123'')) = Inr (Some (JNum 123))
   \<and> JNum 123 \<noteq> JStr ''123''"
  by (simp add: sanitizeBody_def try_block_def jsonString_of_def)

text \<open>
  C7, amended. \<^verbatim>\<open>undefined\<close> and \<^verbatim>\<open>null\<close> map to \<^verbatim>\<open>undefined\<close>, and so do the other falsy
  bodies: \<^verbatim>\<open>false\<close>, 0 and the empty string; no other body does. \<^verbatim>\<open>true\<close> and a non-zero
  number pass through unchanged (their serialization being within the threshold). A
  non-empty string of at most 10000 characters that \<^verbatim>\<open>JSON.parse\<close> rejects passes through,
  cut to 500 characters and \<^verbatim>\<open>...\<close> when it is longer than 500; one that parses to a
  value that is not an object or array yields that parsed value.
\<close>

theorem C7_sanitizeBody_boundary:
  "sanitizeBody rt None = Inr None
   \<and> sanitizeBody rt (Some JNull) = Inr None
   \<and> (sanitizeBody rt body = Inr None \<longleftrightarrow>
        body = None \<or> body = Some JNull \<or> body = Some (JBool False)
        \<or> body = Some (JNum 0) \<or> body = Some (JStr []))
   \<and> (JSON_stringify rt (JBool True) = Some js \<and> length js \<le> 10000 \<longrightarrow>
        sanitizeBody rt (Some (JBool True)) = Inr (Some (JBool True)))
   \<and> (n \<noteq> 0 \<and> JSON_stringify rt (JNum n) = Some js \<and> length js \<le> 10000 \<longrightarrow>
        sanitizeBody rt (Some (JNum n)) = Inr (Some (JNum n)))
   \<and> (s \<noteq> [] \<and> length s \<le> 10000 \<and> JSON_parse rt s = None \<longrightarrow>
        sanitizeBody rt (Some (JStr s))
          = Inr (Some (JStr (if length s > 500 then take 500 s @ ''...'' else s))))
   \<and> (s \<noteq> [] \<and> length s \<le> 10000 \<and> JSON_parse rt s = Some v \<and> \<not> is_object v \<longrightarrow>
        sanitizeBody rt (Some (JStr s)) = Inr (Some v))"
proof -
  have undef: "sanitizeBody rt None = Inr None"
    by (rule sanitizeBody_undefined)
  have null: "sanitizeBody rt (Some JNull) = Inr None"
    by (simp add: sanitizeBody_falsy)
  have iff: "sanitizeBody rt body = Inr None \<longleftrightarrow>
      body = None \<or> body = Some JNull \<or> body = Some (JBool False)
      \<or> body = Some (JNum 0) \<or> body = Some (JStr [])"
    unfolding sanitizeBody_None_iff falsy_iff by auto
  have tt: "JSON_stringify rt (JBool True) = Some js \<and> length js \<le> 10000 \<longrightarrow>
      sanitizeBody rt (Some (JBool True)) = Inr (Some (JBool True))"
    using try_block_value [of "JBool True" rt js]
    by (simp add: sanitizeBody_truthy jsonString_of_def)
  have num: "n \<noteq> 0 \<and> JSON_stringify rt (JNum n) = Some js \<and> length js \<le> 10000 \<longrightarrow>
      sanitizeBody rt (Some (JNum n)) = Inr (Some (JNum n))"
    using try_block_value [of "JNum n" rt js]
    by (simp add: sanitizeBody_truthy jsonString_of_def)
  have raw: "s \<noteq> [] \<and> length s \<le> 10000 \<and> JSON_parse rt s = None \<longrightarrow>
      sanitizeBody rt (Some (JStr s))
        = Inr (Some (JStr (if length s > 500 then take 500 s @ ''...'' else s)))"
    using try_block_string [of s rt]
    by (simp add: sanitizeBody_truthy catch_block_string cut500_def)
  have parsed: "s \<noteq> [] \<and> length s \<le> 10000 \<and> JSON_parse rt s = Some v \<and> \<not> is_object v \<longrightarrow>
      sanitizeBody rt (Some (JStr s)) = Inr (Some v)"
    using try_block_string [of s rt]
    by (simp add: sanitizeBody_truthy)
  from undef null iff tt num raw parsed show ?thesis
    by blast
qed

theorem C7_sanitizeBody_boundary_witness:
  "(5::real) \<noteq> 0 \<and> length ''5'' \<le> 10000
   \<and> sanitizeBody \<lparr>JSON_parse = \<lambda>s. None, JSON_stringify = \<lambda>v. Some ''5'',
        String_of = \<lambda>v. Some ''5'', stack = 1000\<rparr> (Some (JNum 5)) = Inr (Some (JNum 5))
   \<and> ''hello'' \<noteq> [] \<and> length ''hello'' \<le> 10000
   \<and> sanitizeBody \<lparr>JSON_parse = \<lambda>s. None, JSON_stringify = \<lambda>v. Some ''5'',
        String_of = \<lambda>v. Some ''5'', stack = 1000\<rparr> (Some (JStr ''hello''))
       = Inr (Some (JStr ''hello''))
   \<and> sanitizeBody \<lparr>JSON_parse = \<lambda>s. None, JSON_stringify = \<lambda>v. Some ''5'',
        String_of = \<lambda>v. Some ''5'', stack = 1000\<rparr> (Some (JNum 0)) = Inr None"
proof -
  let ?R = "\<lparr>JSON_parse = \<lambda>s. None, JSON_stringify = \<lambda>v. Some ''5'',
      String_of = \<lambda>v. Some ''5'', stack = 1000\<rparr>"
  note t = C7_sanitizeBody_boundary [of ?R "Some (JNum 0)" "''5''" 5 "''hello''" JNull]
  have n: "(5::real) \<noteq> 0" and l: "length ''5'' \<le> 10000"
    and h: "''hello'' \<noteq> []" and lh: "length ''hello'' \<le> 10000"
    and st: "JSON_stringify ?R (JNum 5) = Some ''5''" and pa: "JSON_parse ?R ''hello'' = None"
    by simp_all
  from t n l st have a: "sanitizeBody ?R (Some (JNum 5)) = Inr (Some (JNum 5))"
    by blast
  from t h lh pa have "sanitizeBody ?R (Some (JStr ''hello''))
      = Inr (Some (JStr (if length ''hello'' > 500 then take 500 ''hello'' @ ''...'' else ''hello'')))"
    by blast
  then have b: "sanitizeBody ?R (Some (JStr ''hello'')) = Inr (Some (JStr ''hello''))"
    by simp
  from t have c: "sanitizeBody ?R (Some (JNum 0)) = Inr None"
    by blast
  from n l a h lh b c show ?thesis
    by blast
qed

text \<open>
  C9 (redaction frame), as stated: besides the key \<^verbatim>\<open>password\<close>, every other key keeps its
  original value. It fails for an object that has another sensitive key: the value of
  \<^verbatim>\<open>token\<close> is replaced by the marker as well.
\<close>

theorem C9_frame_counterexample:
  "redactSensitiveFields (JObj [(''password'', JStr ''x''), (''token'', JStr ''y'')])
     = JObj [(''password'', JStr ''[REDACTED]''), (''token'', JStr ''[REDACTED]'')]
   \<and> get_path (redactSensitiveFields (JObj [(''password'', JStr ''x''), (''token'', JStr ''y'')]))
        [Key ''token''] \<noteq> Some (JStr ''y'')"
  by code_simp

text \<open>
  C9, amended. Take an object with distinct keys, and paths \<open>p\<close> and \<open>q\<close> of array indices
  and of keys that are neither sensitive nor \<^verbatim>\<open>__proto__\<close>. A key spelled \<^verbatim>\<open>password\<close> in any
  letter case that the body has at \<open>p\<close> has the marker as its value at the same place of the
  redaction, and so has every other key there that the code's test finds sensitive. What the
  body has at \<open>q\<close>, the redaction has at \<open>q\<close> in redacted form, and nothing
  where the body has nothing; a value at \<open>q\<close> that is not an object or array is unaltered.
  Nothing is said of a key \<^verbatim>\<open>__proto__\<close> or of what lies below one. This redaction is the
  output of \<^verbatim>\<open>sanitizeBody\<close> when the serialization of the body succeeds with at most 10000
  characters and the body is not nested deeper than the stack allows.
\<close>

theorem C9_redaction_frame:
  assumes "distinct_keys body" and "list_all open_step p" and "list_all open_step q"
  shows "(toLowerCase k = ''password'' \<and> get_path body (p @ [Key k]) = Some x
            \<longrightarrow> get_path (redactSensitiveFields body) (p @ [Key k]) = Some REDACTED)
       \<and> (is_sensitive k \<and> get_path body (p @ [Key k]) = Some x
            \<longrightarrow> get_path (redactSensitiveFields body) (p @ [Key k]) = Some REDACTED)
       \<and> get_path (redactSensitiveFields body) q = map_option redactSensitiveFields (get_path body q)
       \<and> (get_path body q = Some v \<and> \<not> is_object v
            \<longrightarrow> get_path (redactSensitiveFields body) q = Some v)
       \<and> (is_object body \<and> JSON_stringify rt body = Some js \<and> length js \<le> 10000
            \<and> calls body \<le> stack rt
            \<longrightarrow> sanitizeBody rt (Some body) = Inr (Some (redactSensitiveFields body)))"
proof -
  have pw: "toLowerCase k = ''password'' \<and> get_path body (p @ [Key k]) = Some x
      \<longrightarrow> get_path (redactSensitiveFields body) (p @ [Key k]) = Some REDACTED"
    using get_path_sensitive [OF assms(1,2), of k x] password_sensitive [of k] by blast
  have sens: "is_sensitive k \<and> get_path body (p @ [Key k]) = Some x
      \<longrightarrow> get_path (redactSensitiveFields body) (p @ [Key k]) = Some REDACTED"
    using get_path_sensitive [OF assms(1,2), of k x] by blast
  note frame = get_path_redact [OF assms(1,3)]
  have scalar: "get_path body q = Some v \<and> \<not> is_object v
      \<longrightarrow> get_path (redactSensitiveFields body) q = Some v"
    using frame by (auto simp: redact_scalar)
  have route: "is_object body \<and> JSON_stringify rt body = Some js \<and> length js \<le> 10000
      \<and> calls body \<le> stack rt
      \<longrightarrow> sanitizeBody rt (Some body) = Inr (Some (redactSensitiveFields body))"
  proof
    assume h: "is_object body \<and> JSON_stringify rt body = Some js \<and> length js \<le> 10000
      \<and> calls body \<le> stack rt"
    then have truthy: "\<not> falsy body" and nostr: "\<forall>s. body \<noteq> JStr s"
      and js: "jsonString_of rt body = Some js"
      by (cases body; simp add: jsonString_of_def)+
    from try_block_value [OF nostr js] h
    have "try_block rt body = Some (redactSensitiveFields body)"
      by simp
    then show "sanitizeBody rt (Some body) = Inr (Some (redactSensitiveFields body))"
      by (simp add: sanitizeBody_truthy [OF truthy])
  qed
  from pw sens frame scalar route show ?thesis
    by blast
qed

theorem C9_redaction_frame_witness:
  "distinct_keys (JObj [(''user'', JObj [(''name'', JStr ''john''), (''PassWord'', JStr ''secret'')])])
   \<and> list_all open_step [Key ''user'']
   \<and> list_all open_step [Key ''user'', Key ''name'']
   \<and> toLowerCase ''PassWord'' = ''password''
   \<and> get_path (redactSensitiveFields
         (JObj [(''user'', JObj [(''name'', JStr ''john''), (''PassWord'', JStr ''secret'')])]))
       [Key ''user'', Key ''PassWord''] = Some (JStr ''[REDACTED]'')
   \<and> get_path (redactSensitiveFields
         (JObj [(''user'', JObj [(''name'', JStr ''john''), (''PassWord'', JStr ''secret'')])]))
       [Key ''user'', Key ''name''] = Some (JStr ''john'')
   \<and> sanitizeBody
        \<lparr>JSON_parse = \<lambda>s. None,
         JSON_stringify = \<lambda>v. Some ''{\"user\":{\"name\":\"john\",\"PassWord\":\"secret\"}}'',
         String_of = \<lambda>v. Some ''[object Object]'', stack = 1000\<rparr>
        (Some (JObj [(''user'', JObj [(''name'', JStr ''john''), (''PassWord'', JStr ''secret'')])]))
      = Inr (Some (redactSensitiveFields
          (JObj [(''user'', JObj [(''name'', JStr ''john''), (''PassWord'', JStr ''secret'')])])))"
proof -
  let ?B = "JObj [(''user'', JObj [(''name'', JStr ''john''), (''PassWord'', JStr ''secret'')])]"
  let ?R = "\<lparr>JSON_parse = \<lambda>s. None,
      JSON_stringify = \<lambda>v. Some ''{\"user\":{\"name\":\"john\",\"PassWord\":\"secret\"}}'',
      String_of = \<lambda>v. Some ''[object Object]'', stack = 1000\<rparr>"
  have dk: "distinct_keys ?B"
    by simp
  have op: "list_all open_step [Key ''user'']"
    by code_simp
  have oq: "list_all open_step [Key ''user'', Key ''name'']"
    by code_simp
  have lc: "toLowerCase ''PassWord'' = ''password''"
    by code_simp
  have gp: "get_path ?B ([Key ''user''] @ [Key ''PassWord'']) = Some (JStr ''secret'')"
    by simp
  have gq: "get_path ?B [Key ''user'', Key ''name''] = Some (JStr ''john'')"
    and sc: "\<not> is_object (JStr ''john'')" and ob: "is_object ?B"
    by simp_all
  have st: "JSON_stringify ?R ?B = Some ''{\"user\":{\"name\":\"john\",\"PassWord\":\"secret\"}}''"
    and ln: "length ''{\"user\":{\"name\":\"john\",\"PassWord\":\"secret\"}}'' \<le> 10000"
    by simp_all
  have "calls ?B \<le> 1000"
    by code_simp
  then have ca: "calls ?B \<le> stack ?R"
    by simp
  note t = C9_redaction_frame [OF dk op oq, of "''PassWord''" "JStr ''secret''" "JStr ''john''"
      ?R "''{\"user\":{\"name\":\"john\",\"PassWord\":\"secret\"}}''"]
  from t lc gp
  have "get_path (redactSensitiveFields ?B) ([Key ''user''] @ [Key ''PassWord'']) = Some REDACTED"
    by blast
  then have a: "get_path (redactSensitiveFields ?B) [Key ''user'', Key ''PassWord''] = Some (JStr ''[REDACTED]'')"
    by (simp add: REDACTED_def)
  from t gq sc
  have b: "get_path (redactSensitiveFields ?B) [Key ''user'', Key ''name''] = Some (JStr ''john'')"
    by blast
  from t ob st ln ca
  have c: "sanitizeBody ?R (Some ?B) = Inr (Some (redactSensitiveFields ?B))"
    by blast
  from dk op oq lc a b c show ?thesis
    by blast
qed

end
